theory Spec2Isabelle
  imports Complex_Main "HOL-Library.Word"
begin

unbundle bit_operations_syntax

section \<open>The model\<close>

subsection \<open>Goal optimizer (goalController.js, src/unnamed/part_011)\<close>

text \<open>
  JavaScript numbers are modelled as exact rationals: the rounding of binary64
  arithmetic, the infinities and NaN as an arithmetic result are not modelled. Every
  concrete input evaluated below is chosen so that each intermediate value is a dyadic
  rational of fewer than 53 significant bits (or the comparison it feeds has the same
  outcome after rounding), so that the evaluation is also what the binary64 run gives.

  A field of the request body is modelled by what the two tests of the handler make of
  it: \<open>Undefined\<close> when it \<open>=== undefined\<close> (the field is missing); \<open>Null\<close> and
  \<open>Boolean b\<close> for the JSON values \<open>null\<close>, \<open>true\<close> and \<open>false\<close>, which \<open>Number(\<cdot>)\<close>
  turns into 0, 1 and 0; \<open>Numeric x\<close> for a number, or a string that \<open>Number(\<cdot>)\<close> reads
  as the number \<open>x\<close>; \<open>NotNumeric\<close> for every other value, which \<open>Number(\<cdot>)\<close> turns
  into NaN.
\<close>

datatype field = Undefined | Null | Boolean bool | Numeric rat | NotNumeric

record request_body =
  goalAmount :: field
  months :: field
  annualRate :: field

record entry =
  month :: nat
  balance :: rat

record deposit_result =
  requiredDeposit :: rat
  projection :: "entry list"
  iterations :: nat

datatype response =
    Status400 string
  | Status200 deposit_result
  | Status500 string

text \<open>
  \<open>x.toFixed(2)\<close>: the integer \<open>n\<close> with \<open>n / 100\<close> closest to \<open>x\<close>, the larger one
  on a tie, the sign of a negative \<open>x\<close> set aside first. The model keeps the number
  \<open>n / 100\<close> that the resulting decimal string denotes.
\<close>

definition toFixed2 :: "rat \<Rightarrow> rat" where
  "toFixed2 x =
     (if x < 0 then - (rat_of_int \<lfloor>(- x) * 100 + 1 / 2\<rfloor> / 100)
      else rat_of_int \<lfloor>x * 100 + 1 / 2\<rfloor> / 100)"

text \<open>
  The \<open>for\<close> loop of \<open>simulateInvestment\<close>, from the counter \<open>i\<close> on; it closes over
  \<open>totalMonths\<close> and \<open>monthlyRate\<close>.
\<close>

function simulate_loop ::
  "rat \<Rightarrow> rat \<Rightarrow> rat \<Rightarrow> nat \<Rightarrow> rat \<Rightarrow> entry list \<Rightarrow> rat \<times> entry list" where
  "simulate_loop totalMonths monthlyRate deposit i bal proj =
     (if rat_of_nat i \<le> totalMonths then
        (let bal1 = bal + deposit;
             bal2 = bal1 + bal1 * monthlyRate
         in simulate_loop totalMonths monthlyRate deposit (i + 1) bal2
              (proj @ [\<lparr>month = i, balance = toFixed2 bal2\<rparr>]))
      else (bal, proj))"
  by pat_completeness auto

termination
proof (relation "measure (\<lambda>(totalMonths, monthlyRate, deposit, i, bal, proj).
                    nat (\<lfloor>totalMonths\<rfloor> + 1) - i)")
  show "wf (measure (\<lambda>(totalMonths :: rat, monthlyRate :: rat, deposit :: rat, i :: nat,
                       bal :: rat, proj :: entry list). nat (\<lfloor>totalMonths\<rfloor> + 1) - i))"
    by simp
next
  fix totalMonths monthlyRate deposit :: rat and i :: nat and bal :: rat
    and proj :: "entry list" and x xa :: rat
  assume "rat_of_nat i \<le> totalMonths"
  then have "int i \<le> \<lfloor>totalMonths\<rfloor>"
    by (simp add: le_floor_iff)
  then show "((totalMonths, monthlyRate, deposit, i + 1, xa,
               proj @ [\<lparr>month = i, balance = toFixed2 xa\<rparr>]),
              (totalMonths, monthlyRate, deposit, i, bal, proj))
             \<in> measure (\<lambda>(totalMonths, monthlyRate, deposit, i, bal, proj).
                    nat (\<lfloor>totalMonths\<rfloor> + 1) - i)"
    by simp
qed

declare simulate_loop.simps [simp del]

definition simulateInvestment :: "rat \<Rightarrow> rat \<Rightarrow> rat \<Rightarrow> rat \<times> entry list" where
  "simulateInvestment totalMonths monthlyRate deposit =
     simulate_loop totalMonths monthlyRate deposit 1 0 []"

text \<open>The variables of the binary search; \<open>mid\<close> is declared without a value.\<close>

record search_state =
  low :: rat
  high :: rat
  mid :: "rat option"
  iters :: nat
  finalProjection :: "entry list"

text \<open>The \<open>while (high - low > 0.01)\<close> loop, over the simulation it calls.\<close>

function search_loop ::
  "(rat \<Rightarrow> rat \<times> entry list) \<Rightarrow> rat \<Rightarrow> search_state \<Rightarrow> search_state" where
  "search_loop simulate goal st =
     (if high st - low st > 1 / 100 then
        (let m = (low st + high st) / 2;
             result = simulate m
         in if fst result < goal
            then search_loop simulate goal
                   (st\<lparr>low := m, mid := Some m, iters := iters st + 1\<rparr>)
            else search_loop simulate goal
                   (st\<lparr>high := m, mid := Some m, iters := iters st + 1,
                       finalProjection := snd result\<rparr>))
      else st)"
  by pat_completeness auto

termination search_loop
proof -
  have halved: "nat \<lceil>w / 2 * 100\<rceil> < nat \<lceil>w * 100\<rceil>" if w: "1 / 100 < w" for w :: rat
  proof -
    have "1 < w * 100" using w by simp
    then have c2: "2 \<le> \<lceil>w * 100\<rceil>"
      by (simp add: le_ceiling_iff less_ceiling_iff)
    have "w * 100 \<le> rat_of_int \<lceil>w * 100\<rceil>"
      by (rule le_of_int_ceiling)
    then have "w / 2 * 100 \<le> rat_of_int \<lceil>w * 100\<rceil> / 2"
      by linarith
    also have "\<dots> \<le> rat_of_int (\<lceil>w * 100\<rceil> - 1)"
      using c2 by simp
    finally have "\<lceil>w / 2 * 100\<rceil> \<le> \<lceil>w * 100\<rceil> - 1"
      by (rule ceiling_le)
    then show ?thesis using c2 by linarith
  qed
  show ?thesis
  proof (relation "measure (\<lambda>(simulate, goal, st). nat \<lceil>(high st - low st) * 100\<rceil>)")
    show "wf (measure (\<lambda>(simulate :: rat \<Rightarrow> rat \<times> entry list, goal :: rat,
                         st :: search_state). nat \<lceil>(high st - low st) * 100\<rceil>))"
      by simp
  next
    fix simulate :: "rat \<Rightarrow> rat \<times> entry list" and goal :: rat and st :: search_state
      and x :: rat and xa :: "rat \<times> entry list"
    assume w: "1 / 100 < high st - low st" and x: "x = (low st + high st) / 2"
    have "(high st - x) * 100 = (high st - low st) / 2 * 100"
      unfolding x by (simp add: field_simps)
    then show "((simulate, goal, st\<lparr>low := x, mid := Some x, iters := iters st + 1\<rparr>),
                (simulate, goal, st))
               \<in> measure (\<lambda>(simulate, goal, st). nat \<lceil>(high st - low st) * 100\<rceil>)"
      using halved [OF w] by (simp del: times_divide_eq_left)
  next
    fix simulate :: "rat \<Rightarrow> rat \<times> entry list" and goal :: rat and st :: search_state
      and x :: rat and xa :: "rat \<times> entry list"
    assume w: "1 / 100 < high st - low st" and x: "x = (low st + high st) / 2"
    have "(x - low st) * 100 = (high st - low st) / 2 * 100"
      unfolding x by (simp add: field_simps)
    then show "((simulate, goal,
                 st\<lparr>high := x, mid := Some x, iters := iters st + 1,
                    finalProjection := snd xa\<rparr>),
                (simulate, goal, st))
               \<in> measure (\<lambda>(simulate, goal, st). nat \<lceil>(high st - low st) * 100\<rceil>)"
      using halved [OF w] by (simp del: times_divide_eq_left)
  qed
qed

declare search_loop.simps [simp del]

text \<open>
  The handler, over the simulation function it calls. The three validation returns come
  first. \<open>respond\<close> is its last statement: the 200 response, or, when \<open>mid\<close> was
  never assigned, the TypeError of \<open>mid.toFixed(2)\<close> that the \<open>catch\<close> block turns
  into the 500 response.
\<close>

definition isUndefined :: "field \<Rightarrow> bool" where
  "isUndefined f = (case f of Undefined \<Rightarrow> True | _ \<Rightarrow> False)"

text \<open>\<open>Number(f)\<close>, with \<open>None\<close> for NaN.\<close>

definition toNumber :: "field \<Rightarrow> rat option" where
  "toNumber f =
     (case f of
        Undefined \<Rightarrow> None
      | Null \<Rightarrow> Some 0
      | Boolean b \<Rightarrow> Some (if b then 1 else 0)
      | Numeric x \<Rightarrow> Some x
      | NotNumeric \<Rightarrow> None)"

definition respond :: "search_state \<Rightarrow> response" where
  "respond st =
     (case mid st of
        None \<Rightarrow> Status500 ''Internal server error. Please try again later.''
      | Some m \<Rightarrow>
          Status200 \<lparr>requiredDeposit = toFixed2 m,
                    projection = finalProjection st,
                    iterations = iters st\<rparr>)"

definition calculateRequiredDeposit_with ::
  "(rat \<Rightarrow> rat \<Rightarrow> rat \<Rightarrow> rat \<times> entry list) \<Rightarrow> request_body \<Rightarrow> response" where
  "calculateRequiredDeposit_with simulate body =
     (if isUndefined (goalAmount body) \<or> isUndefined (months body)
         \<or> isUndefined (annualRate body)
      then Status400 ''Missing required fields: goalAmount, months, and annualRate.''
      else
        (case (toNumber (goalAmount body), toNumber (months body),
               toNumber (annualRate body)) of
           (Some goal, Some totalMonths, Some rate) \<Rightarrow>
             if goal \<le> 0 \<or> totalMonths \<le> 0 \<or> rate < 0
             then Status400
               ''Values must be positive, and interest rate must be non-negative.''
             else
               (let monthlyRate = rate / 100 / 12
                in respond
                     (search_loop (simulate totalMonths monthlyRate) goal
                        \<lparr>low = 0, high = goal, mid = None, iters = 0,
                         finalProjection = []\<rparr>))
         | _ \<Rightarrow> Status400 ''All fields must be valid numbers.''))"

definition calculateRequiredDeposit :: "request_body \<Rightarrow> response" where
  "calculateRequiredDeposit = calculateRequiredDeposit_with simulateInvestment"

text \<open>The variables of the search as they are initialised before the loop.\<close>

definition initial_state :: "rat \<Rightarrow> search_state" where
  "initial_state goal = \<lparr>low = 0, high = goal, mid = None, iters = 0, finalProjection = []\<rparr>"

text \<open>
  The validation as the handler performs it: the three fields are present, their
  conversions to a number are not NaN, and goal > 0, months > 0, rate >= 0.
\<close>

definition passes_validation :: "request_body \<Rightarrow> bool" where
  "passes_validation body =
     (goalAmount body \<noteq> Undefined \<and> months body \<noteq> Undefined \<and>
      annualRate body \<noteq> Undefined \<and>
      (case (toNumber (goalAmount body), toNumber (months body),
             toNumber (annualRate body)) of
         (Some goal, Some totalMonths, Some rate) \<Rightarrow>
           0 < goal \<and> 0 < totalMonths \<and> 0 \<le> rate
       | _ \<Rightarrow> False))"

subsection \<open>Attempt limiter (rateLimiter.js)\<close>

text \<open>
  The module-level \<open>loginAttempts\<close> map, from an email to its queue of timestamps
  (milliseconds since the epoch, as \<open>Date.now()\<close> returns them). The time the function
  reads from the clock is its parameter \<open>now\<close>; the map is passed in and returned.
\<close>

type_synonym limiter = "string \<rightharpoonup> int list"

definition MAX_ATTEMPTS :: nat where
  "MAX_ATTEMPTS = 5"

definition WINDOW_MS :: int where
  "WINDOW_MS = 60 * 1000"

text \<open>The \<open>while\<close> loop that shifts timestamps older than the window off the front.\<close>

fun evict :: "int \<Rightarrow> int list \<Rightarrow> int list" where
  "evict now [] = []"
| "evict now (t # ts) = (if now - t > WINDOW_MS then evict now ts else t # ts)"

text \<open>The queue \<open>loginAttempts.get(email)\<close> yields once a missing one was set to \<open>[]\<close>.\<close>

definition attempts_of :: "limiter \<Rightarrow> string \<Rightarrow> int list" where
  "attempts_of loginAttempts email =
     (case loginAttempts email of None \<Rightarrow> [] | Some attempts \<Rightarrow> attempts)"

definition checkRateLimit :: "string \<Rightarrow> int \<Rightarrow> limiter \<Rightarrow> bool \<times> limiter" where
  "checkRateLimit email now loginAttempts =
     (let loginAttempts1 =
            (if loginAttempts email = None then loginAttempts(email \<mapsto> [])
             else loginAttempts);
          attempts = evict now (attempts_of loginAttempts1 email)
      in if MAX_ATTEMPTS \<le> length attempts
         then (False, loginAttempts1(email \<mapsto> attempts))
         else (True, loginAttempts1(email \<mapsto> attempts @ [now])))"

text \<open>
  The map after a history of calls, and the answers to successive calls for one email.
\<close>

fun run :: "(string \<times> int) list \<Rightarrow> limiter \<Rightarrow> limiter" where
  "run [] loginAttempts = loginAttempts"
| "run ((email, now) # calls) loginAttempts =
     run calls (snd (checkRateLimit email now loginAttempts))"

fun answers :: "string \<Rightarrow> int list \<Rightarrow> limiter \<Rightarrow> bool list" where
  "answers email [] loginAttempts = []"
| "answers email (now # later) loginAttempts =
     fst (checkRateLimit email now loginAttempts) #
     answers email later (snd (checkRateLimit email now loginAttempts))"

text \<open>
  The queues of a map are in time order and hold no timestamp later than \<open>T\<close>: what a
  history of calls with non-decreasing clock readings up to \<open>T\<close> leaves.
\<close>

definition chronological :: "limiter \<Rightarrow> int \<Rightarrow> bool" where
  "chronological s T \<longleftrightarrow>
     (\<forall>e. sorted (attempts_of s e) \<and> (\<forall>t \<in> set (attempts_of s e). t \<le> T))"

subsection \<open>TOTP engine (generateTOTP in rateLimiter.js, verifyCode in authController.js)\<close>

text \<open>
  \<open>generateTOTP\<close> calls two libraries that are not part of the repository: the base32
  decoder of the package thirty-two and the HMAC-SHA1 of Node's crypto module. Both are
  parameters of the model: \<open>decode\<close> returns the bytes or the error it throws, \<open>hmac\<close>
  takes the key and the message. The clock reading \<open>Date.now()\<close> is the parameter
  \<open>nowMs\<close>. A thrown exception is the \<open>Inl\<close> of the result.
\<close>

type_synonym byte = "8 word"

datatype js_error = RangeError | DecodeError

text \<open>
  \<open>buf.writeUInt32BE(v, offset)\<close>: Node throws a RangeError unless \<open>v\<close> is an unsigned
  32-bit integer and the four bytes fit into the buffer.
\<close>

definition writeUInt32BE :: "int \<Rightarrow> nat \<Rightarrow> byte list \<Rightarrow> js_error + byte list" where
  "writeUInt32BE v offset buf =
     (if v < 0 \<or> 4294967295 < v \<or> length buf < offset + 4 then Inl RangeError
      else Inr (buf[offset := word_of_int (v div 2 ^ 24),
                    offset + 1 := word_of_int (v div 2 ^ 16),
                    offset + 2 := word_of_int (v div 2 ^ 8),
                    offset + 3 := word_of_int v]))"

text \<open>
  \<open>buf[i] & m\<close>: the byte as a 32-bit integer under the mask; an index outside the buffer
  reads \<open>undefined\<close>, which \<open>&\<close> takes as 0.
\<close>

definition index_and :: "byte list \<Rightarrow> nat \<Rightarrow> 32 word \<Rightarrow> 32 word" where
  "index_and buf i m = (if i < length buf then ucast (buf ! i) AND m else 0)"

text \<open>The remainder operator \<open>%\<close>, which takes the sign of the dividend.\<close>

definition js_rem :: "int \<Rightarrow> int \<Rightarrow> int" where
  "js_rem a b = sgn a * (\<bar>a\<bar> mod \<bar>b\<bar>)"

text \<open>\<open>n.toString()\<close> of an integer, and \<open>s.padStart(targetLength, c)\<close>.\<close>

definition digit_char :: "nat \<Rightarrow> char" where
  "digit_char d = ''0123456789'' ! d"

function digits :: "nat \<Rightarrow> string" where
  "digits n = (if n < 10 then [digit_char n] else digits (n div 10) @ [digit_char (n mod 10)])"
  by pat_completeness auto

termination
  by (relation "measure id") auto

declare digits.simps [simp del]

definition toString :: "int \<Rightarrow> string" where
  "toString n = (if n < 0 then CHR ''-'' # digits (nat (- n)) else digits (nat n))"

definition padStart :: "nat \<Rightarrow> char \<Rightarrow> string \<Rightarrow> string" where
  "padStart targetLength c s = replicate (targetLength - length s) c @ s"

definition generateTOTP ::
  "(string \<Rightarrow> js_error + byte list) \<Rightarrow> (byte list \<Rightarrow> byte list \<Rightarrow> byte list) \<Rightarrow>
   int \<Rightarrow> string \<Rightarrow> js_error + string" where
  "generateTOTP decode hmac nowMs base32Secret =
     (case decode base32Secret of
        Inl e \<Rightarrow> Inl e
      | Inr secret \<Rightarrow>
          (let timeStep = 30;
               currentTime = nowMs div 1000;
               counter = currentTime div timeStep
           in case writeUInt32BE 0 0 (replicate 8 0) of
                Inl e \<Rightarrow> Inl e
              | Inr buffer0 \<Rightarrow>
                  (case writeUInt32BE counter 4 buffer0 of
                     Inl e \<Rightarrow> Inl e
                   | Inr buffer \<Rightarrow>
                       (let digest = hmac secret buffer;
                            offset = unat (index_and digest 19 0xf);
                            binary =
                              ((push_bit 24 (index_and digest offset 0x7f) OR
                                push_bit 16 (index_and digest (offset + 1) 0xff)) OR
                                push_bit 8 (index_and digest (offset + 2) 0xff)) OR
                              index_and digest (offset + 3) 0xff;
                            otp = js_rem (sint binary) 1000000
                        in Inr (padStart 6 CHR ''0'' (toString otp))))))"

text \<open>
  The computation as the specification words it: the counter \<open>floor(epochSeconds / 30)\<close>
  as an 8-byte big-endian integer, the HMAC keyed by the secret, the offset from the low
  4 bits of the last digest byte, the 4 bytes at the offset read big-endian with the top
  bit masked, the value modulo 1,000,000, written as 6 decimal digits.
\<close>

definition big_endian :: "nat \<Rightarrow> nat \<Rightarrow> byte list" where
  "big_endian n v = map (\<lambda>i. of_nat (v div 256 ^ (n - 1 - i))) [0..<n]"

definition from_big_endian :: "byte list \<Rightarrow> nat" where
  "from_big_endian bs = foldl (\<lambda>a b. a * 256 + unat b) 0 bs"

definition zero_padded :: "nat \<Rightarrow> nat \<Rightarrow> string" where
  "zero_padded width v = map (\<lambda>i. digit_char (v div 10 ^ (width - 1 - i) mod 10)) [0..<width]"

definition generate_spec ::
  "(byte list \<Rightarrow> byte list \<Rightarrow> byte list) \<Rightarrow> byte list \<Rightarrow> int \<Rightarrow> string" where
  "generate_spec hmac secret epochSeconds =
     (let counter = nat (epochSeconds div 30);
          digest = hmac secret (big_endian 8 counter);
          offset = unat (last digest) mod 16;
          truncated = from_big_endian (take 4 (drop offset digest)) mod 2 ^ 31
      in zero_padded 6 (truncated mod 1000000))"

text \<open>
  A keyed function with 20-byte results and a decoder, to instantiate the statements
  below at a concrete input; they stand for no library.
\<close>

definition sample_mac :: "byte list \<Rightarrow> byte list \<Rightarrow> byte list" where
  "sample_mac key msg =
     take 20 (rev msg @ key @
       [0x5A, 0x5A, 0x5A, 0x5A, 0x5A, 0x5A, 0x5A, 0x5A, 0x5A, 0x5A,
        0x5A, 0x5A, 0x5A, 0x5A, 0x5A, 0x5A, 0x5A, 0x5A, 0x5A, 0x5A])"

definition sample_decode :: "string \<Rightarrow> js_error + byte list" where
  "sample_decode text = Inr (map (\<lambda>c. of_nat (of_char c)) text)"

text \<open>
  \<open>verifyCode\<close>: the user is looked up by email (the collection is the map from an email
  to the stored secret), the expected code is generated from the stored secret and
  compared with the submitted one by \<open>!==\<close>; the \<open>catch\<close> block answers 500. The
  submitted code is a string, for which the two copies of the handler (\<open>code !== expected\<close>
  and \<open>String(code) !== String(expected)\<close>) agree.
\<close>

datatype http_response = Response nat string

definition verifyCode ::
  "(string \<Rightarrow> js_error + byte list) \<Rightarrow> (byte list \<Rightarrow> byte list \<Rightarrow> byte list) \<Rightarrow>
   int \<Rightarrow> (string \<rightharpoonup> string) \<Rightarrow> string \<Rightarrow> string \<Rightarrow> http_response" where
  "verifyCode decode hmac nowMs users email code =
     (case users email of
        None \<Rightarrow> Response 400 ''Invalid user''
      | Some totpSecret \<Rightarrow>
          (case generateTOTP decode hmac nowMs totpSecret of
             Inl e \<Rightarrow> Response 500 ''Server error''
           | Inr expected \<Rightarrow>
               if code \<noteq> expected then Response 400 ''Invalid verification code''
               else Response 200 ''Login successful''))"

subsection \<open>Secret codec (base32 of the stored TOTP secret)\<close>

text \<open>
  Modelled from the spec: the alphabet of the "standard 5-bit alphabet" encoding (the
  base32 alphabet of RFC 4648); the package thirty-two that defines it is not among the
  sources.
\<close>

definition base32_alphabet :: string where
  "base32_alphabet = ''ABCDEFGHIJKLMNOPQRSTUVWXYZ234567''"

text \<open>
  Modelled from the spec: the \<open>n\<close> low bits of a number, most significant first, and the
  number a list of bits denotes; the encoding's view of bytes and of 5-bit digits.
\<close>

definition msb_bits :: "nat \<Rightarrow> nat \<Rightarrow> bool list" where
  "msb_bits n v = rev (map (bit v) [0..<n])"

definition bits_value :: "bool list \<Rightarrow> nat" where
  "bits_value bs = horner_sum of_bool 2 (rev bs)"

text \<open>
  Modelled from the spec: a list cut into consecutive groups of \<open>n\<close> elements (the last
  one shorter when the length is no multiple of \<open>n\<close>).
\<close>

function groups :: "nat \<Rightarrow> 'a list \<Rightarrow> 'a list list" where
  "groups n xs = (if n = 0 \<or> xs = [] then [] else take n xs # groups n (drop n xs))"
  by pat_completeness auto

termination
  by (relation "measure (\<lambda>(n, xs). length xs)") auto

declare groups.simps [simp del]

text \<open>
  Modelled from the spec: \<open>encode\<close> of the Secret Codec (\<open>base32.encode\<close> of thirty-two,
  not among the sources): the bits of the bytes, filled with zero bits to a multiple of
  5, in groups of 5, each group a character of the alphabet; the text is filled with
  \<open>=\<close> to a multiple of 8 characters.
\<close>

definition base32_encode :: "byte list \<Rightarrow> string" where
  "base32_encode bytes =
     (let bits = concat (map (\<lambda>b. msb_bits 8 (unat b)) bytes);
          padded = bits @ replicate ((5 - length bits mod 5) mod 5) False;
          text = map (\<lambda>q. base32_alphabet ! bits_value q) (groups 5 padded)
      in text @ replicate ((8 - length text mod 8) mod 8) CHR ''='')"

text \<open>
  Modelled from the spec: the 5-bit value of a character of the alphabet, \<open>None\<close> for a
  character outside it.
\<close>

definition char_index :: "char \<Rightarrow> nat option" where
  "char_index = map_of (zip base32_alphabet [0..<32])"

text \<open>
  Modelled from the spec: \<open>decode\<close> of the Secret Codec (\<open>base32.decode\<close> of thirty-two,
  not among the sources): padding characters are ignored; a character outside the
  alphabet or a length that no byte sequence encodes to ("not a valid grouping") is a
  DecodeError; otherwise the bits of the characters, in groups of 8, are the bytes, and
  the bits left over are dropped.
\<close>

definition base32_decode :: "string \<Rightarrow> js_error + byte list" where
  "base32_decode text =
     (let chars = filter (\<lambda>c. c \<noteq> CHR ''='') text
      in if list_ex (\<lambda>c. char_index c = None) chars then Inl DecodeError
         else if length chars mod 8 \<in> {1, 3, 6} then Inl DecodeError
         else
           (let bits = concat (map (\<lambda>c. case char_index c of
                                             None \<Rightarrow> [] | Some v \<Rightarrow> msb_bits 5 v) chars)
            in Inr (map (\<lambda>g. of_nat (bits_value g))
                      (groups 8 (take (8 * (length bits div 8)) bits)))))"

text \<open>
  The secret as \<open>registerUser\<close> stores it:
  \<open>base32.encode(rawSecret).toString().replace(/=/g, "")\<close>.
\<close>

definition stored_secret :: "byte list \<Rightarrow> string" where
  "stored_secret rawSecret = filter (\<lambda>c. c \<noteq> CHR ''='') (base32_encode rawSecret)"

section \<open>Properties of the goal optimizer\<close>

subsection \<open>The search loop, one step at a time\<close>

lemma search_loop_stop:
  "\<not> 1 / 100 < high st - low st \<Longrightarrow> search_loop simulate goal st = st"
  by (subst search_loop.simps) simp

lemma search_loop_low:
  "1 / 100 < high st - low st \<Longrightarrow> fst (simulate ((low st + high st) / 2)) < goal \<Longrightarrow>
   search_loop simulate goal st =
   search_loop simulate goal
     (st\<lparr>low := (low st + high st) / 2, mid := Some ((low st + high st) / 2),
         iters := iters st + 1\<rparr>)"
  by (subst search_loop.simps) (simp add: Let_def)

lemma search_loop_high:
  "1 / 100 < high st - low st \<Longrightarrow> \<not> fst (simulate ((low st + high st) / 2)) < goal \<Longrightarrow>
   search_loop simulate goal st =
   search_loop simulate goal
     (st\<lparr>high := (low st + high st) / 2, mid := Some ((low st + high st) / 2),
         iters := iters st + 1,
         finalProjection := snd (simulate ((low st + high st) / 2))\<rparr>)"
  by (subst search_loop.simps) (simp add: Let_def)

text \<open>
  A rule for facts that relate the state at the loop head to the state at the exit:
  they hold when the loop stops at once, and pass backwards through either branch.
\<close>

lemma search_loop_rule:
  assumes stop: "\<And>st. \<not> 1 / 100 < high st - low st \<Longrightarrow> P st st"
    and below: "\<And>st r. 1 / 100 < high st - low st \<Longrightarrow>
        fst (simulate ((low st + high st) / 2)) < goal \<Longrightarrow>
        P (st\<lparr>low := (low st + high st) / 2, mid := Some ((low st + high st) / 2),
              iters := iters st + 1\<rparr>) r \<Longrightarrow> P st r"
    and reached: "\<And>st r. 1 / 100 < high st - low st \<Longrightarrow>
        \<not> fst (simulate ((low st + high st) / 2)) < goal \<Longrightarrow>
        P (st\<lparr>high := (low st + high st) / 2, mid := Some ((low st + high st) / 2),
              iters := iters st + 1,
              finalProjection := snd (simulate ((low st + high st) / 2))\<rparr>) r \<Longrightarrow> P st r"
  shows "P st (search_loop simulate goal st)"
  using assms
proof (induction simulate goal st rule: search_loop.induct)
  case (1 simulate goal st)
  let ?m = "(low st + high st) / 2"
  show ?case
  proof (cases "1 / 100 < high st - low st")
    case False
    then show ?thesis
      using "1.prems"(1) [of st] by (simp add: search_loop_stop)
  next
    case w: True
    show ?thesis
    proof (cases "fst (simulate ?m) < goal")
      case True
      have "P (st\<lparr>low := ?m, mid := Some ?m, iters := iters st + 1\<rparr>)
              (search_loop simulate goal (st\<lparr>low := ?m, mid := Some ?m, iters := iters st + 1\<rparr>))"
        using "1.IH"(1) [OF w refl refl True] "1.prems" by blast
      then have "P st (search_loop simulate goal
                         (st\<lparr>low := ?m, mid := Some ?m, iters := iters st + 1\<rparr>))"
        by (rule "1.prems"(2) [OF w True])
      then show ?thesis
        using search_loop_low [of st simulate goal, OF w True] by simp
    next
      case False
      have "P (st\<lparr>high := ?m, mid := Some ?m, iters := iters st + 1,
                 finalProjection := snd (simulate ?m)\<rparr>)
              (search_loop simulate goal
                 (st\<lparr>high := ?m, mid := Some ?m, iters := iters st + 1,
                     finalProjection := snd (simulate ?m)\<rparr>))"
        using "1.IH"(2) [OF w refl refl False] "1.prems" by blast
      then have "P st (search_loop simulate goal
                         (st\<lparr>high := ?m, mid := Some ?m, iters := iters st + 1,
                             finalProjection := snd (simulate ?m)\<rparr>))"
        by (rule "1.prems"(3) [OF w False])
      then show ?thesis
        using search_loop_high [of st simulate goal, OF w False] by simp
    qed
  qed
qed





subsection \<open>The handler on inputs that pass its validation\<close>

lemma calculateRequiredDeposit_with_numeric:
  "0 < goal \<Longrightarrow> 0 < totalMonths \<Longrightarrow> 0 \<le> rate \<Longrightarrow>
   calculateRequiredDeposit_with simulate
     \<lparr>goalAmount = Numeric goal, months = Numeric totalMonths, annualRate = Numeric rate\<rparr> =
   respond (search_loop (simulate totalMonths (rate / 100 / 12)) goal (initial_state goal))"
  by (simp add: calculateRequiredDeposit_with_def isUndefined_def toNumber_def
      initial_state_def Let_def)


subsection \<open>What the simulation returns\<close>

lemma simulate_loop_months:
  "1 \<le> i \<Longrightarrow>
   map month (snd (simulate_loop totalMonths monthlyRate deposit i bal proj)) =
   map month proj @ [i ..< Suc (nat \<lfloor>totalMonths\<rfloor>)]"
proof (induction totalMonths monthlyRate deposit i bal proj rule: simulate_loop.induct)
  case (1 totalMonths monthlyRate deposit i bal proj)
  show ?case
  proof (cases "rat_of_nat i \<le> totalMonths")
    case True
    then have "int i \<le> \<lfloor>totalMonths\<rfloor>" by (simp add: le_floor_iff)
    then have le: "i \<le> nat \<lfloor>totalMonths\<rfloor>" by linarith
    have "map month (snd (simulate_loop totalMonths monthlyRate deposit (i + 1)
              (bal + deposit + (bal + deposit) * monthlyRate)
              (proj @ [\<lparr>month = i, balance =
                 toFixed2 (bal + deposit + (bal + deposit) * monthlyRate)\<rparr>]))) =
          map month (proj @ [\<lparr>month = i, balance =
                 toFixed2 (bal + deposit + (bal + deposit) * monthlyRate)\<rparr>]) @
          [i + 1 ..< Suc (nat \<lfloor>totalMonths\<rfloor>)]"
      using "1.IH" [OF True refl refl] by simp
    moreover have "[i ..< Suc (nat \<lfloor>totalMonths\<rfloor>)] = i # [i + 1 ..< Suc (nat \<lfloor>totalMonths\<rfloor>)]"
      using le by (simp add: upt_conv_Cons)
    ultimately show ?thesis
      using True by (subst simulate_loop.simps) (simp add: Let_def)
  next
    case False
    then have "\<not> int i \<le> \<lfloor>totalMonths\<rfloor>" by (simp add: le_floor_iff)
    then have "nat \<lfloor>totalMonths\<rfloor> < i" using "1.prems" by linarith
    then show ?thesis
      using False by (subst simulate_loop.simps) simp
  qed
qed

lemma simulateInvestment_months:
  "map month (snd (simulateInvestment totalMonths monthlyRate deposit)) =
   [1 ..< Suc (nat \<lfloor>totalMonths\<rfloor>)]"
  by (simp add: simulateInvestment_def simulate_loop_months)

lemma simulateInvestment_length:
  "length (snd (simulateInvestment totalMonths monthlyRate deposit)) = nat \<lfloor>totalMonths\<rfloor>"
proof -
  have "length (snd (simulateInvestment totalMonths monthlyRate deposit)) =
        length (map month (snd (simulateInvestment totalMonths monthlyRate deposit)))"
    by simp
  also have "\<dots> = length [1 ..< Suc (nat \<lfloor>totalMonths\<rfloor>)]"
    by (simp only: simulateInvestment_months)
  also have "\<dots> = nat \<lfloor>totalMonths\<rfloor>"
    unfolding length_upt by simp
  finally show ?thesis .
qed

text \<open>
  The projection the loop leaves is the one it started with, or the projection of
  some simulated deposit: it is replaced only in the branch that moves \<open>high\<close>.
\<close>

lemma search_loop_projection:
  "finalProjection (search_loop simulate goal st) = finalProjection st \<or>
   (\<exists>m. finalProjection (search_loop simulate goal st) = snd (simulate m))"
  by (rule search_loop_rule [where P = "\<lambda>st r. finalProjection r = finalProjection st \<or>
          (\<exists>m. finalProjection r = snd (simulate m))"]) auto

subsection \<open>The run on goalAmount 10000, 12 months, rate 0\<close>

lemma floor_rat_numeral: "\<lfloor>(numeral a :: rat) / numeral b\<rfloor> = numeral a div numeral b"
  using floor_divide_of_int_eq [of "numeral a" "numeral b", where ?'a = rat] by simp

text \<open>At rate 0 the balance after 12 months is 12 deposits.\<close>

lemma simulateInvestment_12_0: "fst (simulateInvestment 12 0 d) = 12 * d"
  by (simp add: simulateInvestment_def simulate_loop.simps Let_def)

text \<open>
  The 20 iterations, each decided by comparing 12 midpoints with 10000: the last
  midpoint is the final \<open>low\<close>, and the projection is the one of the final \<open>high\<close>.
\<close>

lemma search_10000_12_0:
  "search_loop (simulateInvestment 12 0) 10000 (initial_state 10000) =
   \<lparr>low = 54613125 / 65536, high = 27306875 / 32768, mid = Some (54613125 / 65536),
    iters = 20, finalProjection = snd (simulateInvestment 12 0 (27306875 / 32768))\<rparr>"
  by (simp add: search_loop.simps initial_state_def simulateInvestment_12_0 Let_def)

lemma projection_10000_12_0:
  "snd (simulateInvestment 12 0 (27306875 / 32768)) =
   [\<lparr>month = 1, balance = 83334 / 100\<rparr>, \<lparr>month = 2, balance = 166668 / 100\<rparr>,
    \<lparr>month = 3, balance = 250002 / 100\<rparr>, \<lparr>month = 4, balance = 333336 / 100\<rparr>,
    \<lparr>month = 5, balance = 416670 / 100\<rparr>, \<lparr>month = 6, balance = 500004 / 100\<rparr>,
    \<lparr>month = 7, balance = 583338 / 100\<rparr>, \<lparr>month = 8, balance = 666672 / 100\<rparr>,
    \<lparr>month = 9, balance = 750006 / 100\<rparr>, \<lparr>month = 10, balance = 833340 / 100\<rparr>,
    \<lparr>month = 11, balance = 916674 / 100\<rparr>, \<lparr>month = 12, balance = 1000008 / 100\<rparr>]"
  by (simp add: simulateInvestment_def simulate_loop.simps toFixed2_def Let_def
      floor_rat_numeral)

subsection \<open>The validation\<close>

text \<open>The test for a missing field.\<close>

lemma isUndefined_iff: "isUndefined f \<longleftrightarrow> f = Undefined"
  by (cases f) (simp_all add: isUndefined_def)

subsection \<open>Claims about the optimizer\<close>

text \<open>
  Claim C1 (the returned deposit satisfies the convergence invariant and is the final
  \<open>high\<close>, never a \<open>low\<close> that undershoots). The handler returns the last midpoint, not
  \<open>high\<close>. For goalAmount 10000 over 12 months at rate 0, the test input of the
  specification, the last midpoint went to \<open>low\<close>: the response carries 833.33, whose
  simulated final balance 9999.96 is below the goal, together with the projection of
  \<open>high\<close>, which ended at 833.3396... and rounds to 833.34. The same happens for
  goalAmount 1 over 2 months at rate 0: 0.49 is returned, \<open>high\<close> ended at 0.50.
\<close>

theorem returned_deposit_is_last_midpoint:
  "(calculateRequiredDeposit
      \<lparr>goalAmount = Numeric 10000, months = Numeric 12, annualRate = Numeric 0\<rparr> =
    Status200
      \<lparr>requiredDeposit = 83333 / 100,
       projection =
         [\<lparr>month = 1, balance = 83334 / 100\<rparr>, \<lparr>month = 2, balance = 166668 / 100\<rparr>,
          \<lparr>month = 3, balance = 250002 / 100\<rparr>, \<lparr>month = 4, balance = 333336 / 100\<rparr>,
          \<lparr>month = 5, balance = 416670 / 100\<rparr>, \<lparr>month = 6, balance = 500004 / 100\<rparr>,
          \<lparr>month = 7, balance = 583338 / 100\<rparr>, \<lparr>month = 8, balance = 666672 / 100\<rparr>,
          \<lparr>month = 9, balance = 750006 / 100\<rparr>, \<lparr>month = 10, balance = 833340 / 100\<rparr>,
          \<lparr>month = 11, balance = 916674 / 100\<rparr>, \<lparr>month = 12, balance = 1000008 / 100\<rparr>],
       iterations = 20\<rparr> \<and>
    fst (simulateInvestment 12 0 (83333 / 100)) = 999996 / 100 \<and>
    high (search_loop (simulateInvestment 12 0) 10000 (initial_state 10000)) =
      27306875 / 32768 \<and>
    toFixed2 (27306875 / 32768) = 83334 / 100) \<and>
   (calculateRequiredDeposit
      \<lparr>goalAmount = Numeric 1, months = Numeric 2, annualRate = Numeric 0\<rparr> =
    Status200 \<lparr>requiredDeposit = 49 / 100,
               projection = [\<lparr>month = 1, balance = 1 / 2\<rparr>, \<lparr>month = 2, balance = 1\<rparr>],
               iterations = 7\<rparr> \<and>
    fst (simulateInvestment 2 0 (49 / 100)) = 98 / 100 \<and>
    high (search_loop (simulateInvestment 2 0) 1 (initial_state 1)) = 1 / 2 \<and>
    low (search_loop (simulateInvestment 2 0) 1 (initial_state 1)) = 63 / 128)"
proof -
  have "calculateRequiredDeposit
     \<lparr>goalAmount = Numeric 10000, months = Numeric 12, annualRate = Numeric 0\<rparr> =
     respond (search_loop (simulateInvestment 12 0) 10000 (initial_state 10000))"
    using calculateRequiredDeposit_with_numeric [of 10000 12 0 simulateInvestment]
    by (simp add: calculateRequiredDeposit_def)
  then have test_input: "calculateRequiredDeposit
      \<lparr>goalAmount = Numeric 10000, months = Numeric 12, annualRate = Numeric 0\<rparr> =
    Status200
      \<lparr>requiredDeposit = 83333 / 100,
       projection =
         [\<lparr>month = 1, balance = 83334 / 100\<rparr>, \<lparr>month = 2, balance = 166668 / 100\<rparr>,
          \<lparr>month = 3, balance = 250002 / 100\<rparr>, \<lparr>month = 4, balance = 333336 / 100\<rparr>,
          \<lparr>month = 5, balance = 416670 / 100\<rparr>, \<lparr>month = 6, balance = 500004 / 100\<rparr>,
          \<lparr>month = 7, balance = 583338 / 100\<rparr>, \<lparr>month = 8, balance = 666672 / 100\<rparr>,
          \<lparr>month = 9, balance = 750006 / 100\<rparr>, \<lparr>month = 10, balance = 833340 / 100\<rparr>,
          \<lparr>month = 11, balance = 916674 / 100\<rparr>, \<lparr>month = 12, balance = 1000008 / 100\<rparr>],
       iterations = 20\<rparr> \<and>
    fst (simulateInvestment 12 0 (83333 / 100)) = 999996 / 100 \<and>
    high (search_loop (simulateInvestment 12 0) 10000 (initial_state 10000)) =
      27306875 / 32768 \<and>
    toFixed2 (27306875 / 32768) = 83334 / 100"
    by (simp add: search_10000_12_0 projection_10000_12_0 respond_def toFixed2_def
        floor_rat_numeral simulateInvestment_12_0)
  have small_input: "calculateRequiredDeposit
      \<lparr>goalAmount = Numeric 1, months = Numeric 2, annualRate = Numeric 0\<rparr> =
    Status200 \<lparr>requiredDeposit = 49 / 100,
               projection = [\<lparr>month = 1, balance = 1 / 2\<rparr>, \<lparr>month = 2, balance = 1\<rparr>],
               iterations = 7\<rparr> \<and>
    fst (simulateInvestment 2 0 (49 / 100)) = 98 / 100 \<and>
    high (search_loop (simulateInvestment 2 0) 1 (initial_state 1)) = 1 / 2 \<and>
    low (search_loop (simulateInvestment 2 0) 1 (initial_state 1)) = 63 / 128"
    by code_simp
  show ?thesis
    using test_input small_input by (rule conjI)
qed

text \<open>
  Claim C2 (the returned projection has one entry per month, numbered 1..months). For
  goalAmount 100 over 1 month at rate 0 no midpoint reaches the goal, \<open>high\<close> never
  moves, and the response carries the empty projection the loop started with.
\<close>

theorem projection_left_empty:
  "calculateRequiredDeposit
     \<lparr>goalAmount = Numeric 100, months = Numeric 1, annualRate = Numeric 0\<rparr> =
   Status200 \<lparr>requiredDeposit = 9999 / 100, projection = [], iterations = 14\<rparr>"
  by code_simp




text \<open>
  Claim C8 (every input that violates goal > 0, months a positive integer or rate >= 0,
  a missing or non-numeric field and non-integer months included, is rejected before any
  simulation). The handler never tests that months is an integer, and it tests the
  fields after their conversion to a number. Counterexample: months = 2.5 with the rate
  \<open>null\<close> is accepted and simulated for two months at rate 0.
\<close>

theorem fractional_months_counterexample:
  "calculateRequiredDeposit
     \<lparr>goalAmount = Numeric 1, months = Numeric (5 / 2), annualRate = Null\<rparr> =
   Status200 \<lparr>requiredDeposit = 49 / 100,
              projection = [\<lparr>month = 1, balance = 1 / 2\<rparr>, \<lparr>month = 2, balance = 1\<rparr>],
              iterations = 7\<rparr>"
  by code_simp

text \<open>
  Claim C8, amended: an input with a missing field, a field whose conversion to a
  number is NaN, a goal that is not positive, months that are not positive or a negative
  rate is answered with status 400, and the answer is the same for every simulation
  function, so that no simulation has run; every other input, fractional months
  included, is not answered with status 400.
\<close>

theorem validation_rejects_before_simulation:
  "(\<not> passes_validation body \<longrightarrow>
      (\<exists>msg. \<forall>simulate. calculateRequiredDeposit_with simulate body = Status400 msg)) \<and>
   (passes_validation body \<longrightarrow>
      (\<forall>simulate msg. calculateRequiredDeposit_with simulate body \<noteq> Status400 msg))"
proof (cases "isUndefined (goalAmount body) \<or> isUndefined (months body)
               \<or> isUndefined (annualRate body)")
  case True
  then have "\<not> passes_validation body"
    by (auto simp: passes_validation_def isUndefined_iff)
  moreover have "\<forall>simulate. calculateRequiredDeposit_with simulate body =
      Status400 ''Missing required fields: goalAmount, months, and annualRate.''"
    using True by (simp add: calculateRequiredDeposit_with_def)
  ultimately show ?thesis by blast
next
  case present: False
  show ?thesis
  proof (cases "\<exists>goal totalMonths rate. toNumber (goalAmount body) = Some goal \<and>
                 toNumber (months body) = Some totalMonths \<and>
                 toNumber (annualRate body) = Some rate")
    case False
    then have "\<not> passes_validation body"
      by (auto simp: passes_validation_def split: option.splits)
    moreover have "\<forall>simulate. calculateRequiredDeposit_with simulate body =
        Status400 ''All fields must be valid numbers.''"
      using present False
      by (auto simp: calculateRequiredDeposit_with_def split: option.splits)
    ultimately show ?thesis by blast
  next
    case True
    then obtain goal totalMonths rate where n: "toNumber (goalAmount body) = Some goal"
      "toNumber (months body) = Some totalMonths" "toNumber (annualRate body) = Some rate"
      by blast
    show ?thesis
    proof (cases "goal \<le> 0 \<or> totalMonths \<le> 0 \<or> rate < 0")
      case True
      then have "\<not> passes_validation body"
        using n by (auto simp: passes_validation_def)
      moreover have "\<forall>simulate. calculateRequiredDeposit_with simulate body =
          Status400 ''Values must be positive, and interest rate must be non-negative.''"
        using present n True by (simp add: calculateRequiredDeposit_with_def)
      ultimately show ?thesis by blast
    next
      case False
      then have "passes_validation body"
        using present n by (auto simp: passes_validation_def isUndefined_iff)
      moreover have "\<forall>simulate msg. calculateRequiredDeposit_with simulate body \<noteq> Status400 msg"
        using present n False
        by (auto simp: calculateRequiredDeposit_with_def respond_def Let_def
            split: option.splits)
      ultimately show ?thesis by blast
    qed
  qed
qed

theorem validation_rejects_before_simulation_witness:
  "\<not> passes_validation
       \<lparr>goalAmount = Numeric 100, months = Numeric 0, annualRate = Numeric 5\<rparr> \<and>
   (\<exists>msg. \<forall>simulate. calculateRequiredDeposit_with simulate
       \<lparr>goalAmount = Numeric 100, months = Numeric 0, annualRate = Numeric 5\<rparr> =
       Status400 msg) \<and>
   passes_validation
       \<lparr>goalAmount = Numeric 1, months = Numeric (5 / 2), annualRate = Null\<rparr> \<and>
   (\<forall>simulate msg. calculateRequiredDeposit_with simulate
       \<lparr>goalAmount = Numeric 1, months = Numeric (5 / 2), annualRate = Null\<rparr> \<noteq>
       Status400 msg)"
proof -
  have bad: "\<not> passes_validation
       \<lparr>goalAmount = Numeric 100, months = Numeric 0, annualRate = Numeric 5\<rparr>"
    by (simp add: passes_validation_def toNumber_def)
  have ok: "passes_validation
       \<lparr>goalAmount = Numeric 1, months = Numeric (5 / 2), annualRate = Null\<rparr>"
    by (simp add: passes_validation_def toNumber_def)
  show ?thesis
    using bad ok
      validation_rejects_before_simulation
          [of "\<lparr>goalAmount = Numeric 100, months = Numeric 0, annualRate = Numeric 5\<rparr>"]
      validation_rejects_before_simulation
          [of "\<lparr>goalAmount = Numeric 1, months = Numeric (5 / 2), annualRate = Null\<rparr>"]
    by blast
qed

text \<open>
  Claim C10 (inputs that pass the validation with a goal of at most 0.01, such as
  goalAmount = 0.005 with any positive months, never enter the loop body, leave \<open>mid\<close>
  unassigned and are answered with the internal 500 error).
\<close>

theorem unassigned_mid_internal_error:
  assumes "0 < goal" "goal \<le> 1 / 100" "0 < totalMonths" "0 \<le> rate"
  shows "search_loop (simulateInvestment totalMonths (rate / 100 / 12)) goal
           (initial_state goal) = initial_state goal \<and>
         mid (initial_state goal) = None \<and>
         calculateRequiredDeposit
           \<lparr>goalAmount = Numeric goal, months = Numeric totalMonths,
            annualRate = Numeric rate\<rparr> =
         Status500 ''Internal server error. Please try again later.''"
proof -
  have "\<not> 1 / 100 < high (initial_state goal) - low (initial_state goal)"
    using assms(2) by (simp add: initial_state_def)
  then have stop: "search_loop (simulateInvestment totalMonths (rate / 100 / 12)) goal
           (initial_state goal) = initial_state goal"
    by (rule search_loop_stop)
  have none: "mid (initial_state goal) = None"
    by (simp add: initial_state_def)
  have "calculateRequiredDeposit
           \<lparr>goalAmount = Numeric goal, months = Numeric totalMonths,
            annualRate = Numeric rate\<rparr> = respond (initial_state goal)"
    unfolding calculateRequiredDeposit_def
    using calculateRequiredDeposit_with_numeric [OF assms(1) assms(3) assms(4), of simulateInvestment]
      stop by simp
  then show ?thesis
    using stop none by (simp add: respond_def)
qed

theorem unassigned_mid_internal_error_witness:
  "calculateRequiredDeposit
     \<lparr>goalAmount = Numeric (1 / 200), months = Numeric 12, annualRate = Numeric 5\<rparr> =
   Status500 ''Internal server error. Please try again later.''"
  using unassigned_mid_internal_error [of "1 / 200" 12 5] by simp

section \<open>Properties of the attempt limiter\<close>

subsection \<open>Eviction and the bound on a queue\<close>

lemma evict_dropWhile: "evict now ts = dropWhile (\<lambda>t. now - t > WINDOW_MS) ts"
  by (induction ts) auto

lemma checkRateLimit_eq:
  "checkRateLimit email now s =
     (if MAX_ATTEMPTS \<le> length (evict now (attempts_of s email))
      then (False, s(email \<mapsto> evict now (attempts_of s email)))
      else (True, s(email \<mapsto> evict now (attempts_of s email) @ [now])))"
  by (auto simp: checkRateLimit_def attempts_of_def Let_def split: option.splits)

lemma attempts_of_after:
  "attempts_of (snd (checkRateLimit email now s)) e =
     (if e = email
      then (if MAX_ATTEMPTS \<le> length (evict now (attempts_of s email))
            then evict now (attempts_of s email)
            else evict now (attempts_of s email) @ [now])
      else attempts_of s e)"
  by (simp add: checkRateLimit_eq attempts_of_def)

lemma length_evict: "length (evict now ts) \<le> length ts"
  by (induction ts) auto

lemma evict_full_length: "length (evict now ts) = length ts \<Longrightarrow> evict now ts = ts"
proof (induction ts)
  case Nil
  then show ?case by simp
next
  case (Cons t ts)
  show ?case
  proof (cases "now - t > WINDOW_MS")
    case True
    then have "length (evict now ts) = Suc (length ts)" using Cons.prems by simp
    then show ?thesis using length_evict [of now ts] by simp
  next
    case False
    then show ?thesis by simp
  qed
qed

lemma run_bounded:
  "(\<And>e. length (attempts_of s e) \<le> MAX_ATTEMPTS) \<Longrightarrow>
   length (attempts_of (run calls s) e) \<le> MAX_ATTEMPTS"
proof (induction calls arbitrary: s e)
  case Nil
  then show ?case by simp
next
  case (Cons c calls)
  obtain email now where c: "c = (email, now)" by (cases c)
  have "length (evict now (attempts_of s email)) \<le> MAX_ATTEMPTS"
    using Cons.prems [of email] length_evict [of now "attempts_of s email"] by simp
  then have "\<And>e. length (attempts_of (snd (checkRateLimit email now s)) e) \<le> MAX_ATTEMPTS"
    using Cons.prems by (simp add: attempts_of_after)
  then show ?case
    unfolding c by (simp add: Cons.IH)
qed

lemma denial_unchanged_aux:
  assumes "\<not> fst (checkRateLimit email now (run calls Map.empty))"
  shows "snd (checkRateLimit email now (run calls Map.empty)) = run calls Map.empty"
proof -
  let ?s = "run calls Map.empty"
  have b: "length (attempts_of ?s email) \<le> MAX_ATTEMPTS"
    by (rule run_bounded) (simp add: attempts_of_def)
  have full: "MAX_ATTEMPTS \<le> length (evict now (attempts_of ?s email))"
    using assms by (simp add: checkRateLimit_eq split: if_splits)
  then have "length (evict now (attempts_of ?s email)) = length (attempts_of ?s email)"
    using b length_evict [of now "attempts_of ?s email"] by simp
  then have same: "evict now (attempts_of ?s email) = attempts_of ?s email"
    by (rule evict_full_length)
  have "attempts_of ?s email \<noteq> []"
    using full same by (auto simp: MAX_ATTEMPTS_def)
  then have "?s email = Some (attempts_of ?s email)"
    by (auto simp: attempts_of_def split: option.splits)
  then have "?s(email \<mapsto> attempts_of ?s email) = ?s"
    by (rule map_upd_triv)
  then show ?thesis
    using full same by (simp add: checkRateLimit_eq)
qed

lemma evict_sorted:
  "sorted ts \<Longrightarrow> evict now ts = filter (\<lambda>t. \<not> now - t > WINDOW_MS) ts"
proof (induction ts)
  case Nil
  then show ?case by simp
next
  case (Cons t ts)
  show ?case
  proof (cases "now - t > WINDOW_MS")
    case True
    then show ?thesis using Cons by simp
  next
    case False
    have "\<forall>u \<in> set ts. \<not> now - u > WINDOW_MS"
      using Cons.prems False by auto
    then have "filter (\<lambda>t. \<not> now - t > WINDOW_MS) ts = ts"
      by simp
    then show ?thesis using False by simp
  qed
qed

lemma set_evict: "set (evict now ts) \<subseteq> set ts"
  by (induction ts) auto

lemma sorted_evict: "sorted ts \<Longrightarrow> sorted (evict now ts)"
  by (induction ts) auto

lemma chronological_step:
  assumes "chronological s T" "T \<le> now"
  shows "chronological (snd (checkRateLimit email now s)) now"
proof -
  have old: "sorted (attempts_of s e)" "\<forall>t \<in> set (attempts_of s e). t \<le> now" for e
    using assms by (fastforce simp: chronological_def)+
  have kept: "sorted (evict now (attempts_of s email))"
    "\<forall>t \<in> set (evict now (attempts_of s email)). t \<le> now"
    using old [of email] set_evict [of now "attempts_of s email"]
    by (auto simp: sorted_evict)
  then have "sorted (evict now (attempts_of s email) @ [now])"
    by (simp add: sorted_append)
  then show ?thesis
    using old kept by (auto simp: chronological_def attempts_of_after)
qed

lemma chronological_run:
  "chronological s T \<Longrightarrow> sorted (T # map snd calls) \<Longrightarrow>
   \<exists>T'. chronological (run calls s) T'"
proof (induction calls arbitrary: s T)
  case Nil
  then show ?case by auto
next
  case (Cons c calls)
  obtain email now where c: "c = (email, now)" by (cases c)
  have "T \<le> now" using Cons.prems(2) c by simp
  then have "chronological (snd (checkRateLimit email now s)) now"
    using Cons.prems(1) by (intro chronological_step)
  moreover have "sorted (now # map snd calls)"
    using Cons.prems(2) c by simp
  ultimately show ?case
    unfolding c using Cons.IH by simp
qed

lemma run_sorted:
  assumes "sorted (map snd calls)"
  shows "sorted (attempts_of (run calls Map.empty) email)"
proof (cases calls)
  case Nil
  then show ?thesis by (simp add: attempts_of_def)
next
  case (Cons c cs)
  have "chronological Map.empty (snd c)"
    by (simp add: chronological_def attempts_of_def)
  moreover have "sorted (snd c # map snd calls)"
    using assms Cons by simp
  ultimately obtain T' where "chronological (run calls Map.empty) T'"
    using chronological_run by blast
  then show ?thesis by (simp add: chronological_def)
qed

lemma evict_in_window:
  "\<forall>t \<in> set ts. now - t \<le> WINDOW_MS \<Longrightarrow> evict now ts = ts"
  by (cases ts) auto

lemma five_then_denied_then_admitted:
  assumes fresh: "s email = None"
    and order: "t1 \<le> t2" "t2 \<le> t3" "t3 \<le> t4" "t4 \<le> t5" "t5 \<le> t6"
    and inside: "t6 - t1 \<le> WINDOW_MS"
    and after: "WINDOW_MS < t7 - t1"
  shows "answers email [t1, t2, t3, t4, t5, t6, t7] s =
           [True, True, True, True, True, False, True]"
proof -
  define s1 where "s1 = s(email \<mapsto> [t1])"
  define s2 where "s2 = s(email \<mapsto> [t1, t2])"
  define s3 where "s3 = s(email \<mapsto> [t1, t2, t3])"
  define s4 where "s4 = s(email \<mapsto> [t1, t2, t3, t4])"
  define s5 where "s5 = s(email \<mapsto> [t1, t2, t3, t4, t5])"
  have c1: "checkRateLimit email t1 s = (True, s1)"
    using fresh by (simp add: checkRateLimit_eq attempts_of_def s1_def MAX_ATTEMPTS_def)
  have c2: "checkRateLimit email t2 s1 = (True, s2)"
    using order inside
    by (simp add: checkRateLimit_eq attempts_of_def s1_def s2_def MAX_ATTEMPTS_def)
  have c3: "checkRateLimit email t3 s2 = (True, s3)"
    using order inside
    by (simp add: checkRateLimit_eq attempts_of_def s2_def s3_def MAX_ATTEMPTS_def)
  have c4: "checkRateLimit email t4 s3 = (True, s4)"
    using order inside
    by (simp add: checkRateLimit_eq attempts_of_def s3_def s4_def MAX_ATTEMPTS_def)
  have c5: "checkRateLimit email t5 s4 = (True, s5)"
    using order inside
    by (simp add: checkRateLimit_eq attempts_of_def s4_def s5_def MAX_ATTEMPTS_def)
  have c6: "checkRateLimit email t6 s5 = (False, s5)"
    using order inside
    by (simp add: checkRateLimit_eq attempts_of_def s5_def MAX_ATTEMPTS_def)
  have "length (evict t7 [t2, t3, t4, t5]) \<le> length [t2, t3, t4, t5]"
    by (rule length_evict)
  then have c7: "fst (checkRateLimit email t7 s5)"
    using after
    by (simp add: checkRateLimit_eq attempts_of_def s5_def MAX_ATTEMPTS_def)
  show ?thesis
    using c1 c2 c3 c4 c5 c6 c7 by simp
qed

subsection \<open>Claims about the limiter\<close>

text \<open>
  Claim C6 (for every identity and call time checkAndRecord evicts exactly the timestamps
  older than the 60-second window, a prefix trim of the insertion-ordered queue; denies
  without recording when five remain, admits and records otherwise; so a fresh identity
  is admitted five times in a window, denied the sixth time, and admitted again once the
  window has elapsed). The eviction stops at the first timestamp inside the window.
  Counterexample: the clock is set back by 100 seconds between the first two calls
  (readings 1700000100000 and 1700000000000); the third call, at 1700000100001, evicts
  nothing, and the second timestamp, 100 seconds old, stays in the queue.
\<close>

theorem stale_timestamp_counterexample:
  "attempts_of (run [(''a@b.c'', 1700000100000), (''a@b.c'', 1700000000000)] Map.empty)
     ''a@b.c'' = [1700000100000, 1700000000000] \<and>
   checkRateLimit ''a@b.c'' 1700000100001
     (run [(''a@b.c'', 1700000100000), (''a@b.c'', 1700000000000)] Map.empty) =
     (True, [''a@b.c'' \<mapsto> [1700000100000, 1700000000000, 1700000100001]]) \<and>
   WINDOW_MS < 1700000100001 - 1700000000000"
  by (simp add: checkRateLimit_eq attempts_of_def MAX_ATTEMPTS_def WINDOW_MS_def)

text \<open>
  Claim C6, amended. The first conjunct is the decision over the queue with its longest
  prefix of timestamps older than the window removed, for any map: deny without
  recording when five remain, admit and record otherwise. The second says that the
  removed prefix is exactly the set of recorded timestamps older than the window when
  the clock readings of the calls so far never decreased. The third is the scenario,
  for any map in which the email is not yet a key: \<open>t1 \<dots> t6\<close> non-decreasing and at
  most a window apart, \<open>t7\<close> more than a window after \<open>t1\<close>.
\<close>

theorem checkRateLimit_sliding_window:
  "MAX_ATTEMPTS = 5 \<and> WINDOW_MS = 60000 \<and>
   checkRateLimit email now s =
     (let attempts = dropWhile (\<lambda>t. now - t > WINDOW_MS) (attempts_of s email)
      in if MAX_ATTEMPTS \<le> length attempts then (False, s(email \<mapsto> attempts))
         else (True, s(email \<mapsto> attempts @ [now]))) \<and>
   (sorted (map snd calls) \<longrightarrow>
      dropWhile (\<lambda>t. now - t > WINDOW_MS) (attempts_of (run calls Map.empty) email) =
      filter (\<lambda>t. \<not> now - t > WINDOW_MS) (attempts_of (run calls Map.empty) email)) \<and>
   (s email = None \<and> t1 \<le> t2 \<and> t2 \<le> t3 \<and> t3 \<le> t4 \<and> t4 \<le> t5 \<and> t5 \<le> t6 \<and>
    t6 - t1 \<le> WINDOW_MS \<and> WINDOW_MS < t7 - t1 \<longrightarrow>
      answers email [t1, t2, t3, t4, t5, t6, t7] s =
        [True, True, True, True, True, False, True])"
proof (intro conjI impI)
  show "MAX_ATTEMPTS = 5" by (simp add: MAX_ATTEMPTS_def)
  show "WINDOW_MS = 60000" by (simp add: WINDOW_MS_def)
  show "checkRateLimit email now s =
     (let attempts = dropWhile (\<lambda>t. now - t > WINDOW_MS) (attempts_of s email)
      in if MAX_ATTEMPTS \<le> length attempts then (False, s(email \<mapsto> attempts))
         else (True, s(email \<mapsto> attempts @ [now])))"
    by (simp add: checkRateLimit_eq evict_dropWhile Let_def)
next
  assume "sorted (map snd calls)"
  then have "sorted (attempts_of (run calls Map.empty) email)"
    by (rule run_sorted)
  then have "evict now (attempts_of (run calls Map.empty) email) =
             filter (\<lambda>t. \<not> now - t > WINDOW_MS) (attempts_of (run calls Map.empty) email)"
    by (rule evict_sorted)
  then show "dropWhile (\<lambda>t. now - t > WINDOW_MS) (attempts_of (run calls Map.empty) email) =
             filter (\<lambda>t. \<not> now - t > WINDOW_MS) (attempts_of (run calls Map.empty) email)"
    by (simp add: evict_dropWhile)
next
  assume "s email = None \<and> t1 \<le> t2 \<and> t2 \<le> t3 \<and> t3 \<le> t4 \<and> t4 \<le> t5 \<and> t5 \<le> t6 \<and>
          t6 - t1 \<le> WINDOW_MS \<and> WINDOW_MS < t7 - t1"
  then show "answers email [t1, t2, t3, t4, t5, t6, t7] s =
               [True, True, True, True, True, False, True]"
    by (intro five_then_denied_then_admitted) simp_all
qed

theorem checkRateLimit_sliding_window_witness:
  "checkRateLimit ''a@b.c'' 70000 [''a@b.c'' \<mapsto> [0, 20000, 40000]] =
     (True, [''a@b.c'' \<mapsto> [20000, 40000, 70000]]) \<and>
   dropWhile (\<lambda>t. 70000 - t > WINDOW_MS)
     (attempts_of (run [(''a@b.c'', 0), (''a@b.c'', 20000), (''a@b.c'', 40000)] Map.empty)
        ''a@b.c'') =
   filter (\<lambda>t. \<not> 70000 - t > WINDOW_MS)
     (attempts_of (run [(''a@b.c'', 0), (''a@b.c'', 20000), (''a@b.c'', 40000)] Map.empty)
        ''a@b.c'') \<and>
   answers ''a@b.c'' [0, 10000, 20000, 30000, 40000, 60000, 60001] Map.empty =
     [True, True, True, True, True, False, True]"
proof -
  have c: "sorted (map snd [(''a@b.c'', 0 :: int), (''a@b.c'', 20000), (''a@b.c'', 40000)])"
    by simp
  have t: "(Map.empty :: limiter) ''a@b.c'' = None \<and> (0 :: int) \<le> 10000 \<and>
           (10000 :: int) \<le> 20000 \<and> (20000 :: int) \<le> 30000 \<and> (30000 :: int) \<le> 40000 \<and>
           (40000 :: int) \<le> 60000 \<and> 60000 - 0 \<le> WINDOW_MS \<and> WINDOW_MS < 60001 - 0"
    by (simp add: WINDOW_MS_def)
  show ?thesis
    using checkRateLimit_sliding_window
            [of "''a@b.c''" 70000 "[''a@b.c'' \<mapsto> [0, 20000, 40000]]"
                "[(''a@b.c'', 0), (''a@b.c'', 20000), (''a@b.c'', 40000)]"
                0 10000 20000 30000 40000 60000 60001]
          checkRateLimit_sliding_window
            [of "''a@b.c''" 70000 Map.empty
                "[(''a@b.c'', 0), (''a@b.c'', 20000), (''a@b.c'', 40000)]"
                0 10000 20000 30000 40000 60000 60001]
          c t
    by (simp add: attempts_of_def)
qed

text \<open>
  Claim C7 (a denial leaves the limiter's map exactly as it was). The map is private to
  the module and starts empty, so its states are the ones a history of calls produces.
  In such a state a queue never holds more than five timestamps, so a call that still
  finds five after the eviction has evicted none.
\<close>

theorem denial_leaves_map_unchanged:
  assumes "\<not> fst (checkRateLimit email now (run calls Map.empty))"
  shows "snd (checkRateLimit email now (run calls Map.empty)) = run calls Map.empty"
  using assms by (rule denial_unchanged_aux)

theorem denial_leaves_map_unchanged_witness:
  "\<not> fst (checkRateLimit ''a@b.c'' 5
            (run [(''a@b.c'', 0), (''a@b.c'', 1), (''a@b.c'', 2), (''a@b.c'', 3),
                  (''a@b.c'', 4)] Map.empty)) \<and>
   snd (checkRateLimit ''a@b.c'' 5
          (run [(''a@b.c'', 0), (''a@b.c'', 1), (''a@b.c'', 2), (''a@b.c'', 3),
                (''a@b.c'', 4)] Map.empty)) =
   run [(''a@b.c'', 0), (''a@b.c'', 1), (''a@b.c'', 2), (''a@b.c'', 3), (''a@b.c'', 4)]
     Map.empty"
proof -
  have denied: "\<not> fst (checkRateLimit ''a@b.c'' 5
            (run [(''a@b.c'', 0), (''a@b.c'', 1), (''a@b.c'', 2), (''a@b.c'', 3),
                  (''a@b.c'', 4)] Map.empty))"
    by (simp add: checkRateLimit_eq attempts_of_def MAX_ATTEMPTS_def WINDOW_MS_def)
  show ?thesis
    using denied denial_leaves_map_unchanged [OF denied] by (rule conjI)
qed

section \<open>Properties of the TOTP engine\<close>

subsection \<open>Formatting, truncation and the counter bytes\<close>

lemma js_rem_nonneg: "0 \<le> a \<Longrightarrow> 0 < b \<Longrightarrow> js_rem a b = a mod b"
  by (cases "a = 0") (simp_all add: js_rem_def)

lemma zero_padded_Suc:
  "zero_padded (Suc k) v = zero_padded k (v div 10) @ [digit_char (v mod 10)]"
proof -
  have "map (\<lambda>i. digit_char (v div 10 ^ (Suc k - 1 - i) mod 10)) [0..<k] =
        map (\<lambda>i. digit_char (v div 10 div 10 ^ (k - 1 - i) mod 10)) [0..<k]"
  proof (rule map_cong [OF refl])
    fix i assume "i \<in> set [0..<k]"
    then have "Suc k - 1 - i = Suc (k - 1 - i)" by auto
    then show "digit_char (v div 10 ^ (Suc k - 1 - i) mod 10) =
               digit_char (v div 10 div 10 ^ (k - 1 - i) mod 10)"
      by (simp add: div_mult2_eq)
  qed
  then show ?thesis
    by (simp add: zero_padded_def)
qed

lemma zero_padded_zero: "zero_padded k 0 = replicate k CHR ''0''"
  by (induction k) (simp_all add: zero_padded_Suc replicate_append_same digit_char_def, simp add: zero_padded_def)

lemma length_digits: "0 < k \<Longrightarrow> n < 10 ^ k \<Longrightarrow> length (digits n) \<le> k"
proof (induction k arbitrary: n)
  case 0
  then show ?case by simp
next
  case (Suc k)
  show ?case
  proof (cases "n < 10")
    case True
    then show ?thesis by (subst digits.simps) simp
  next
    case False
    then have "0 < k" using Suc.prems by (cases k) auto
    moreover have "n div 10 < 10 ^ k" using Suc.prems by (simp add: less_mult_imp_div_less mult.commute)
    ultimately have "length (digits (n div 10)) \<le> k" by (rule Suc.IH)
    then show ?thesis using False by (subst digits.simps) simp
  qed
qed

lemma padStart_digits:
  "0 < k \<Longrightarrow> n < 10 ^ k \<Longrightarrow> padStart k CHR ''0'' (digits n) = zero_padded k n"
proof (induction k arbitrary: n)
  case 0
  then show ?case by simp
next
  case (Suc k)
  show ?case
  proof (cases "n < 10")
    case True
    then have "digits n = [digit_char n]" by (subst digits.simps) simp
    then show ?thesis
      using True by (simp add: padStart_def zero_padded_Suc zero_padded_zero)
  next
    case False
    then have k: "0 < k" using Suc.prems by (cases k) auto
    have lt: "n div 10 < 10 ^ k" using Suc.prems by (simp add: less_mult_imp_div_less mult.commute)
    have d: "digits n = digits (n div 10) @ [digit_char (n mod 10)]"
      using False by (subst digits.simps) simp
    have "length (digits (n div 10)) \<le> k" using k lt by (rule length_digits)
    then have "padStart (Suc k) CHR ''0'' (digits n) =
               padStart k CHR ''0'' (digits (n div 10)) @ [digit_char (n mod 10)]"
      unfolding d by (simp add: padStart_def)
    then show ?thesis
      using Suc.IH [OF k lt] by (simp add: zero_padded_Suc)
  qed
qed

lemma zero_padded_format:
  "length (zero_padded k v) = k \<and> (\<forall>c \<in> set (zero_padded k v). c \<in> set ''0123456789'')"
proof -
  have "digit_char (x mod 10) \<in> set ''0123456789''" for x
  proof -
    have "x mod 10 < length ''0123456789''" by simp
    then show ?thesis unfolding digit_char_def by (rule nth_mem)
  qed
  then show ?thesis by (auto simp: zero_padded_def)
qed

lemma ucast_and_ff: "(ucast (b :: byte) :: 32 word) AND 0xff = ucast b"
proof -
  have "(0xff :: 32 word) = mask 8" by (simp add: mask_eq_exp_minus_1)
  then show ?thesis
    by (auto simp: bit_eq_iff bit_simps dest: bit_imp_le_length) 
qed

lemma unat_index_and_f:
  "i < length buf \<Longrightarrow> unat (index_and buf i 0xf) = unat (buf ! i) mod 16"
proof -
  assume "i < length buf"
  have m: "(0xf :: 32 word) = mask 4" by (simp add: mask_eq_exp_minus_1)
  have "unat ((ucast (buf ! i) :: 32 word) AND mask 4) = take_bit 4 (unat (buf ! i))"
    by (simp add: unsigned_and_eq unsigned_ucast_eq take_bit_eq_mask [symmetric] unsigned_take_bit_eq min_def)
  then show ?thesis
    using \<open>i < length buf\<close> by (simp add: index_and_def m take_bit_eq_mod)
qed

lemma or_is_add_nat:
  fixes Y0 X1 X2 X3 :: nat
  shows "((push_bit 24 Y0 OR push_bit 16 (take_bit 8 X1)) OR
         push_bit 8 (take_bit 8 X2)) OR take_bit 8 X3 =
         push_bit 24 Y0 + push_bit 16 (take_bit 8 X1) +
         push_bit 8 (take_bit 8 X2) + take_bit 8 X3"
proof -
  have 1: "push_bit 24 Y0 AND push_bit 16 (take_bit 8 X1) = 0"
    by (rule bit_eqI) (auto simp: bit_simps)
  have 2: "(push_bit 24 Y0 OR push_bit 16 (take_bit 8 X1)) AND
           push_bit 8 (take_bit 8 X2) = 0"
    by (rule bit_eqI) (auto simp: bit_simps)
  have 3: "((push_bit 24 Y0 OR push_bit 16 (take_bit 8 X1)) OR
           push_bit 8 (take_bit 8 X2)) AND take_bit 8 X3 = 0"
    by (rule bit_eqI) (auto simp: bit_simps)
  show ?thesis
    using 1 2 3 by (simp add: disjunctive_add_eq_or)
qed

lemma take_bit_31_bytes:
  fixes X0 X1 X2 X3 :: nat
  shows "take_bit 31 (((push_bit 24 (take_bit 8 X0) OR push_bit 16 (take_bit 8 X1)) OR
           push_bit 8 (take_bit 8 X2)) OR take_bit 8 X3) =
         ((push_bit 24 (take_bit 7 X0) OR push_bit 16 (take_bit 8 X1)) OR
           push_bit 8 (take_bit 8 X2)) OR take_bit 8 X3"
  by (rule bit_eqI) (auto simp: bit_simps)

lemma unat_ucast_and_mask:
  fixes b :: byte
  shows "unat ((ucast b :: 32 word) AND mask k) = take_bit k (unat b)"
proof -
  have "unat (ucast b :: 32 word) = unat b"
    by (simp add: unsigned_ucast_eq take_bit_nat_eq_self_iff)
       (use unsigned_less [of b, where ?'a = nat] in simp)
  then show ?thesis
    by (simp add: take_bit_eq_mask [symmetric] unsigned_take_bit_eq)
qed

lemma take_bit_32_fits:
  fixes X0 X1 X2 :: nat
  shows "take_bit 32 (push_bit 24 (take_bit 7 X0)) = push_bit 24 (take_bit 7 X0)"
    and "take_bit 32 (push_bit 16 (take_bit 8 X1)) = push_bit 16 (take_bit 8 X1)"
    and "take_bit 32 (push_bit 8 (take_bit 8 X2)) = push_bit 8 (take_bit 8 X2)"
  by (rule bit_eqI, auto simp: bit_simps)+

lemma unat_binary_bits:
  fixes b0 b1 b2 b3 :: byte
  shows "unat (((push_bit 24 ((ucast b0 :: 32 word) AND 0x7f) OR
                 push_bit 16 ((ucast b1 :: 32 word) AND 0xff)) OR
                 push_bit 8 ((ucast b2 :: 32 word) AND 0xff)) OR
                 ((ucast b3 :: 32 word) AND 0xff)) =
         ((push_bit 24 (take_bit 7 (unat b0)) OR push_bit 16 (take_bit 8 (unat b1))) OR
         push_bit 8 (take_bit 8 (unat b2))) OR take_bit 8 (unat b3)"
proof -
  have m7: "(0x7f :: 32 word) = mask 7" and m8: "(0xff :: 32 word) = mask 8"
    by (simp_all add: mask_eq_exp_minus_1)
  have len: "LENGTH(32) = 32" by simp
  have p24: "unat (push_bit 24 ((ucast b0 :: 32 word) AND mask 7)) =
             push_bit 24 (take_bit 7 (unat b0))"
    by (simp only: unsigned_push_bit_eq len unat_ucast_and_mask take_bit_32_fits)
  have p16: "unat (push_bit 16 ((ucast b1 :: 32 word) AND mask 8)) =
             push_bit 16 (take_bit 8 (unat b1))"
    by (simp only: unsigned_push_bit_eq len unat_ucast_and_mask take_bit_32_fits)
  have p8: "unat (push_bit 8 ((ucast b2 :: 32 word) AND mask 8)) =
            push_bit 8 (take_bit 8 (unat b2))"
    by (simp only: unsigned_push_bit_eq len unat_ucast_and_mask take_bit_32_fits)
  show ?thesis
    unfolding m7 m8
    by (simp only: unsigned_or_eq p24 p16 p8 unat_ucast_and_mask)
qed

lemma binary_value:
  fixes b0 b1 b2 b3 :: byte
  shows "unat (((push_bit 24 ((ucast b0 :: 32 word) AND 0x7f) OR
                 push_bit 16 ((ucast b1 :: 32 word) AND 0xff)) OR
                 push_bit 8 ((ucast b2 :: 32 word) AND 0xff)) OR
                 ((ucast b3 :: 32 word) AND 0xff)) =
         from_big_endian [b0, b1, b2, b3] mod 2 ^ 31"
proof -
  have t: "take_bit 8 (unat b) = unat b" for b :: byte
    by (simp add: take_bit_nat_eq_self_iff) (use unsigned_less [of b, where ?'a = nat] in simp)
  have "from_big_endian [b0, b1, b2, b3] =
        push_bit 24 (unat b0) + push_bit 16 (unat b1) + push_bit 8 (unat b2) + unat b3"
    by (simp add: from_big_endian_def push_bit_eq_mult)
  also have "\<dots> = push_bit 24 (take_bit 8 (unat b0)) + push_bit 16 (take_bit 8 (unat b1)) +
                   push_bit 8 (take_bit 8 (unat b2)) + take_bit 8 (unat b3)"
    by (simp only: t)
  also have "\<dots> = ((push_bit 24 (take_bit 8 (unat b0)) OR push_bit 16 (take_bit 8 (unat b1))) OR
                   push_bit 8 (take_bit 8 (unat b2))) OR take_bit 8 (unat b3)"
    by (rule or_is_add_nat [symmetric])
  finally have "from_big_endian [b0, b1, b2, b3] mod 2 ^ 31 =
        take_bit 31 (((push_bit 24 (take_bit 8 (unat b0)) OR push_bit 16 (take_bit 8 (unat b1))) OR
                   push_bit 8 (take_bit 8 (unat b2))) OR take_bit 8 (unat b3))"
    by (simp only: take_bit_eq_mod)
  then show ?thesis
    unfolding take_bit_31_bytes unat_binary_bits by simp
qed

lemma writeUInt32BE_zero:
  "writeUInt32BE 0 0 (replicate 8 0) = Inr (replicate 8 0)"
  by (simp add: writeUInt32BE_def numeral_eq_Suc)

lemma writeUInt32BE_counter:
  assumes "0 \<le> c" "c < 2 ^ 32"
  shows "writeUInt32BE c 4 (replicate 8 0) = Inr (big_endian 8 (nat c))"
proof -
  have small: "nat c div 256 ^ k = 0" if "4 \<le> k" for k
  proof -
    have "nat c < 256 ^ 4" using assms by simp
    also have "(256 :: nat) ^ 4 \<le> 256 ^ k" using that by (intro power_increasing) simp_all
    finally show ?thesis by simp
  qed
  have conv: "(of_nat (nat c div 256 ^ k) :: byte) = word_of_int (c div 2 ^ (8 * k))" for k
  proof -
    have "int (nat c div 256 ^ k) = c div 256 ^ k"
      using assms(1) by (simp add: zdiv_int)
    moreover have "(256 :: int) ^ k = 2 ^ (8 * k)"
      by (simp add: power_mult)
    ultimately have "int (nat c div 256 ^ k) = c div 2 ^ (8 * k)" by simp
    then show ?thesis by (metis of_int_of_nat_eq)
  qed
  have "big_endian 8 (nat c) =
        [0, 0, 0, 0, word_of_int (c div 2 ^ 24), word_of_int (c div 2 ^ 16),
         word_of_int (c div 2 ^ 8), word_of_int c]"
    using small [of 7] small [of 6] small [of 5] small [of 4]
      conv [of 3] conv [of 2] conv [of 1] conv [of 0]
    by (simp add: big_endian_def upt_rec)
  moreover have "writeUInt32BE c 4 (replicate 8 0) =
        Inr [0, 0, 0, 0, word_of_int (c div 2 ^ 24), word_of_int (c div 2 ^ 16),
         word_of_int (c div 2 ^ 8), word_of_int c]"
    using assms by (simp add: writeUInt32BE_def numeral_eq_Suc)
  ultimately show ?thesis by simp
qed

lemma generateTOTP_refines:
  assumes mac: "\<And>key msg. length (hmac key msg) = 20"
    and dec: "decode base32Secret = Inr secret"
    and t0: "0 \<le> nowMs"
    and t1: "nowMs div 1000 div 30 < 2 ^ 32"
  shows "generateTOTP decode hmac nowMs base32Secret =
         Inr (generate_spec hmac secret (nowMs div 1000))"
proof -
  define c where "c = nowMs div 1000 div 30"
  define D where "D = hmac secret (big_endian 8 (nat c))"
  define off where "off = unat (last D) mod 16"
  have c0: "0 \<le> c" using t0 by (simp add: c_def pos_imp_zdiv_nonneg_iff)
  have len: "length D = 20" by (simp add: D_def mac)
  have "D \<noteq> []" using len by auto
  then have last: "last D = D ! 19" using len by (simp add: last_conv_nth)
  have offset: "unat (index_and D 19 0xf) = off"
    using len by (simp add: unat_index_and_f off_def last)
  have off15: "off < 16" by (simp add: off_def)
  have idx: "index_and D (off + k) m = ucast (D ! (off + k)) AND m" if "k \<le> 3" for k m
    using that off15 len by (simp add: index_and_def)
  have dr: "drop k D = D ! k # drop (Suc k) D" if "k < 20" for k
    using that len by (simp add: Cons_nth_drop_Suc)
  have "drop off D = D ! off # D ! (off + 1) # D ! (off + 2) # D ! (off + 3) # drop (off + 4) D"
    using dr [of off] dr [of "off + 1"] dr [of "off + 2"] dr [of "off + 3"] off15
    by (simp add: numeral_eq_Suc)
  then have tk: "take 4 (drop off D) = [D ! off, D ! (off + 1), D ! (off + 2), D ! (off + 3)]"
    by simp
  define binary :: "32 word" where "binary =
     ((push_bit 24 (index_and D off 0x7f) OR push_bit 16 (index_and D (off + 1) 0xff)) OR
       push_bit 8 (index_and D (off + 2) 0xff)) OR index_and D (off + 3) 0xff"
  have i0: "index_and D off 0x7f = ucast (D ! off) AND 0x7f"
    using idx [of 0 "0x7f"] by simp
  have i1: "index_and D (off + 1) 0xff = ucast (D ! (off + 1)) AND 0xff"
    using idx [of 1 "0xff"] by simp
  have i2: "index_and D (off + 2) 0xff = ucast (D ! (off + 2)) AND 0xff"
    using idx [of 2 "0xff"] by simp
  have i3: "index_and D (off + 3) 0xff = ucast (D ! (off + 3)) AND 0xff"
    using idx [of 3 "0xff"] by simp
  have ub: "unat binary = from_big_endian (take 4 (drop off D)) mod 2 ^ 31"
    unfolding binary_def tk i0 i1 i2 i3 by (rule binary_value)
  have "unat binary < 2 ^ 31" unfolding ub by simp
  then have "int (unat binary) < int (2 ^ 31)" by (simp only: of_nat_less_iff)
  then have lt: "uint binary < 2 ^ 31" by simp
  have ge: "- (2 ^ 31) \<le> uint binary"
    by (rule order_trans [of _ 0]) simp_all
  have "signed_take_bit 31 (uint binary) = uint binary"
    using ge lt by (rule signed_take_bit_int_eq_self)
  then have sb: "sint binary = int (unat binary)"
    by (simp add: sint_uint)
  have otp: "js_rem (sint binary) 1000000 = int (unat binary mod 1000000)"
    unfolding sb by (simp add: js_rem_nonneg zmod_int)
  have fmt: "padStart 6 CHR ''0'' (toString (int (unat binary mod 1000000))) =
             zero_padded 6 (unat binary mod 1000000)"
    by (simp add: toString_def padStart_digits)
  have "generateTOTP decode hmac nowMs base32Secret =
        Inr (padStart 6 CHR ''0'' (toString (js_rem (sint binary) 1000000)))"
    using dec c0 t1 offset
    by (simp add: generateTOTP_def Let_def writeUInt32BE_zero writeUInt32BE_counter
        c_def [symmetric] D_def [symmetric] binary_def)
  also have "\<dots> = Inr (zero_padded 6 (unat binary mod 1000000))"
    unfolding otp fmt ..
  also have "\<dots> = Inr (generate_spec hmac secret (nowMs div 1000))"
    using c0 by (simp add: generate_spec_def Let_def c_def [symmetric] D_def [symmetric]
        off_def [symmetric] ub)
  finally show ?thesis .
qed

subsection \<open>Claims about the TOTP engine\<close>

text \<open>
  Claim C4 (for every secret and every time instant the code is the 6-digit rendering of
  the dynamically truncated HMAC of the 8-byte big-endian counter). The counter is
  written with \<open>writeUInt32BE\<close> into the low four bytes. Counterexample: at
  \<open>2 ^ 32 * 30\<close> seconds after the epoch the counter no longer fits and the call throws a
  RangeError instead of returning a code; so it does for a time before the epoch.
\<close>

theorem counter_overflow_counterexample:
  "generateTOTP sample_decode sample_mac (4294967296 * 30 * 1000) ''k'' = Inl RangeError \<and>
   generateTOTP sample_decode sample_mac (- 1) ''k'' = Inl RangeError"
  by (simp add: generateTOTP_def sample_decode_def writeUInt32BE_def Let_def)

text \<open>
  Claim C4, amended: for a digest function with 20-byte results, a secret the decoder
  returns and a clock reading from the epoch up to \<open>2 ^ 32 * 30\<close> seconds after it, the
  result is the code of the specification; outside that range the call throws a
  RangeError. The code of the specification is 6 decimal digits, leading zeros
  included: the value 42 is rendered as 000042.
\<close>

theorem generateTOTP_computes_code:
  assumes "\<And>key msg. length (hmac key msg) = 20"
    and "decode base32Secret = Inr secret"
  shows "generateTOTP decode hmac nowMs base32Secret =
           (if 0 \<le> nowMs \<and> nowMs div 1000 div 30 < 2 ^ 32
            then Inr (generate_spec hmac secret (nowMs div 1000))
            else Inl RangeError) \<and>
         length (generate_spec hmac secret (nowMs div 1000)) = 6 \<and>
         (\<forall>c \<in> set (generate_spec hmac secret (nowMs div 1000)). c \<in> set ''0123456789'') \<and>
         zero_padded 6 42 = ''000042''"
proof (intro conjI)
  show "generateTOTP decode hmac nowMs base32Secret =
           (if 0 \<le> nowMs \<and> nowMs div 1000 div 30 < 2 ^ 32
            then Inr (generate_spec hmac secret (nowMs div 1000))
            else Inl RangeError)"
  proof (cases "0 \<le> nowMs \<and> nowMs div 1000 div 30 < 2 ^ 32")
    case True
    then show ?thesis
      using generateTOTP_refines [of hmac decode base32Secret secret nowMs] assms by simp
  next
    case False
    then have "nowMs div 1000 div 30 < 0 \<or> 4294967295 < nowMs div 1000 div 30"
      by (auto simp: neg_imp_zdiv_neg_iff not_le)
    then show ?thesis
      using False assms(2)
      by (auto simp: generateTOTP_def Let_def writeUInt32BE_zero writeUInt32BE_def)
  qed
  show "length (generate_spec hmac secret (nowMs div 1000)) = 6"
    by (simp add: generate_spec_def Let_def zero_padded_format)
  show "\<forall>c \<in> set (generate_spec hmac secret (nowMs div 1000)). c \<in> set ''0123456789''"
    unfolding generate_spec_def Let_def using zero_padded_format by blast
  show "zero_padded 6 42 = ''000042''"
    by (simp add: zero_padded_def digit_char_def upt_rec)
qed

theorem generateTOTP_computes_code_witness:
  "generateTOTP sample_decode sample_mac 59000 ''k'' = Inr ''870810'' \<and>
   generateTOTP sample_decode sample_mac (- 1) ''k'' = Inl RangeError"
proof -
  have len: "\<And>key msg. length (sample_mac key msg) = 20"
    by (simp add: sample_mac_def)
  have dec: "sample_decode ''k'' = Inr [107]"
    by (simp add: sample_decode_def)
  have code: "generate_spec sample_mac [107] 59 = ''870810''"
    by (simp add: generate_spec_def sample_mac_def big_endian_def from_big_endian_def
        zero_padded_def digit_char_def upt_rec)
  show ?thesis
    using generateTOTP_computes_code [of sample_mac sample_decode "''k''" "[107]" 59000, OF len dec]
      generateTOTP_computes_code [of sample_mac sample_decode "''k''" "[107]" "- 1", OF len dec]
      code
    by simp
qed

text \<open>
  The functional part of claim C5: for a known user, \<open>verifyCode\<close> answers 200 exactly
  when the submitted code is the code generated from the stored secret at the current
  clock reading, so the code just generated is accepted. That the comparison takes
  constant time is not a statement about values and is not expressed here.
\<close>

lemma verifyCode_accepts_iff:
  "users email = Some totpSecret \<Longrightarrow>
   verifyCode decode hmac nowMs users email code = Response 200 ''Login successful'' \<longleftrightarrow>
   generateTOTP decode hmac nowMs totpSecret = Inr code"
  by (auto simp: verifyCode_def split: sum.splits)

section \<open>Properties of the secret codec\<close>

subsection \<open>Bits, groups and the alphabet\<close>

lemma length_msb_bits [simp]: "length (msb_bits n v) = n"
  by (simp add: msb_bits_def)

lemma bits_value_msb_bits: "bits_value (msb_bits n v) = take_bit n v"
  by (simp add: bits_value_def msb_bits_def horner_sum_bit_eq_take_bit)

lemma msb_bits_bits_value: "length q = n \<Longrightarrow> msb_bits n (bits_value q) = q"
proof -
  assume len: "length q = n"
  have "map (bit (horner_sum of_bool 2 (rev q) :: nat)) [0..<n] = rev q"
    using len by (intro nth_equalityI) (simp_all add: bit_horner_sum_bit_iff)
  then show ?thesis
    by (simp add: msb_bits_def bits_value_def)
qed

lemma bits_value_less: "bits_value q < 2 ^ length q"
  using horner_sum_of_bool_2_less [of "rev q", where ?'a = nat] by (simp add: bits_value_def)

lemma groups_Nil [simp]: "groups n [] = []"
  by (subst groups.simps) simp

lemma groups_append:
  "0 < n \<Longrightarrow> length x = n \<Longrightarrow> groups n (x @ ys) = x # groups n ys"
  by (subst groups.simps) auto

lemma groups_concat:
  "0 < n \<Longrightarrow> \<forall>x \<in> set xss. length x = n \<Longrightarrow> groups n (concat xss) = xss"
  by (induction xss) (simp_all add: groups_append)

lemma concat_groups: "0 < n \<Longrightarrow> concat (groups n xs) = xs"
proof (induction n xs rule: groups.induct)
  case (1 n xs)
  show ?case
  proof (cases "xs = []")
    case True
    then show ?thesis by simp
  next
    case False
    then have "groups n xs = take n xs # groups n (drop n xs)"
      using "1.prems" by (subst groups.simps) simp
    then show ?thesis
      using "1.IH" "1.prems" False by simp
  qed
qed

lemma groups_lengths:
  "0 < n \<Longrightarrow> n dvd length xs \<Longrightarrow> g \<in> set (groups n xs) \<Longrightarrow> length g = n"
proof (induction n xs rule: groups.induct)
  case (1 n xs)
  show ?case
  proof (cases "xs = []")
    case True
    then show ?thesis using "1.prems" by simp
  next
    case False
    have ne: "\<not> (n = 0 \<or> xs = [])" using "1.prems"(1) False by simp
    have g: "groups n xs = take n xs # groups n (drop n xs)"
      using ne by (subst groups.simps) simp
    have le: "n \<le> length xs"
      using "1.prems"(2) False by (auto dest: dvd_imp_le)
    have dv: "n dvd length (drop n xs)"
      using "1.prems"(2) le by simp
    show ?thesis
    proof (cases "g = take n xs")
      case True
      then show ?thesis using le by simp
    next
      case False
      then have "g \<in> set (groups n (drop n xs))"
        using "1.prems"(3) unfolding g by simp
      then show ?thesis
        using "1.IH" [OF ne "1.prems"(1) dv] by simp
    qed
  qed
qed

lemma length_concat_uniform:
  "\<forall>x \<in> set xss. length x = n \<Longrightarrow> length (concat xss) = n * length xss"
  by (induction xss) simp_all

lemma length_groups:
  "0 < n \<Longrightarrow> n dvd length xs \<Longrightarrow> n * length (groups n xs) = length xs"
proof -
  assume n: "0 < n" and d: "n dvd length xs"
  have "\<forall>g \<in> set (groups n xs). length g = n"
    using groups_lengths [OF n d] by blast
  then have "length (concat (groups n xs)) = n * length (groups n xs)"
    by (rule length_concat_uniform)
  then show ?thesis
    using concat_groups [OF n, of xs] by simp
qed

lemma alphabet_facts:
  "length base32_alphabet = 32" "distinct base32_alphabet"
  "CHR ''='' \<notin> set base32_alphabet"
  by (simp_all add: base32_alphabet_def)

lemma char_index_nth: "i < 32 \<Longrightarrow> char_index (base32_alphabet ! i) = Some i"
proof -
  assume i: "i < 32"
  have "map_of (zip base32_alphabet [0..<32]) (base32_alphabet ! i) = Some ([0..<32] ! i)"
    using i by (intro map_of_zip_nth) (simp_all add: alphabet_facts)
  then show ?thesis using i by (simp add: char_index_def)
qed

lemma char_index_None: "char_index c = None \<longleftrightarrow> c \<notin> set base32_alphabet"
  unfolding char_index_def by (rule map_of_zip_is_None) (simp add: alphabet_facts)

lemma mod5_of_40: "(40 * k + c) mod 5 = c mod (5::nat)"
proof -
  have "40 * k + c = 5 * (8 * k) + c" by simp
  then show ?thesis by (simp only: mod_mult_self4)
qed

lemma mod8_of_8: "(8 * k + c) mod 8 = c mod (8::nat)"
  by (simp only: mod_mult_self4)

lemma padded_length_case:
  fixes k r m :: nat
  assumes n: "n = 5 * k + r" and r: "8 * r + (5 - (8 * r) mod 5) mod 5 = 5 * m" and m: "m < 8"
  shows "8 * n + (5 - (8 * n) mod 5) mod 5 = 5 * (8 * k + m) \<and> (8 * k + m) mod 8 = m"
proof -
  have "8 * n = 40 * k + 8 * r" using n by simp
  then have "(8 * n) mod 5 = (8 * r) mod 5" by (simp only: mod5_of_40)
  then have "8 * n + (5 - (8 * n) mod 5) mod 5 = 40 * k + (8 * r + (5 - (8 * r) mod 5) mod 5)"
    using \<open>8 * n = 40 * k + 8 * r\<close> by simp
  also have "\<dots> = 5 * (8 * k + m)" unfolding r by simp
  finally show ?thesis using m by (simp add: mod8_of_8)
qed

lemma padded_length:
  fixes n :: nat
  shows "\<exists>m. 8 * n + (5 - (8 * n) mod 5) mod 5 = 5 * m \<and>
             m mod 8 \<noteq> 1 \<and> m mod 8 \<noteq> 3 \<and> m mod 8 \<noteq> 6"
proof -
  have n: "n = 5 * (n div 5) + n mod 5" by simp
  have "n mod 5 < 5" by simp
  then consider "n mod 5 = 0" | "n mod 5 = 1" | "n mod 5 = 2" | "n mod 5 = 3" | "n mod 5 = 4"
    by linarith
  then show ?thesis
  proof cases
    case 1
    have "8 * n + (5 - (8 * n) mod 5) mod 5 = 5 * (8 * (n div 5) + 0) \<and>
          (8 * (n div 5) + 0) mod 8 = 0"
      by (rule padded_length_case [of n "n div 5" 0 0]) (use n 1 in simp_all)
    then show ?thesis by (intro exI [of _ "8 * (n div 5) + 0"]) simp
  next
    case 2
    have "8 * n + (5 - (8 * n) mod 5) mod 5 = 5 * (8 * (n div 5) + 2) \<and>
          (8 * (n div 5) + 2) mod 8 = 2"
      by (rule padded_length_case [of n "n div 5" 1 2]) (use n 2 in simp_all)
    then show ?thesis by (intro exI [of _ "8 * (n div 5) + 2"]) simp
  next
    case 3
    have "8 * n + (5 - (8 * n) mod 5) mod 5 = 5 * (8 * (n div 5) + 4) \<and>
          (8 * (n div 5) + 4) mod 8 = 4"
      by (rule padded_length_case [of n "n div 5" 2 4]) (use n 3 in simp_all)
    then show ?thesis by (intro exI [of _ "8 * (n div 5) + 4"]) simp
  next
    case 4
    have "8 * n + (5 - (8 * n) mod 5) mod 5 = 5 * (8 * (n div 5) + 5) \<and>
          (8 * (n div 5) + 5) mod 8 = 5"
      by (rule padded_length_case [of n "n div 5" 3 5]) (use n 4 in simp_all)
    then show ?thesis by (intro exI [of _ "8 * (n div 5) + 5"]) simp
  next
    case 5
    have "8 * n + (5 - (8 * n) mod 5) mod 5 = 5 * (8 * (n div 5) + 7) \<and>
          (8 * (n div 5) + 7) mod 8 = 7"
      by (rule padded_length_case [of n "n div 5" 4 7]) (use n 5 in simp_all)
    then show ?thesis by (intro exI [of _ "8 * (n div 5) + 7"]) simp
  qed
qed

lemma encode_decode_core:
  fixes bytes :: "byte list"
  defines "bits \<equiv> concat (map (\<lambda>b. msb_bits 8 (unat b)) bytes)"
  defines "padded \<equiv> bits @ replicate ((5 - length bits mod 5) mod 5) False"
  defines "text \<equiv> map (\<lambda>q. base32_alphabet ! bits_value q) (groups 5 padded)"
  shows "base32_encode bytes = text @ replicate ((8 - length text mod 8) mod 8) CHR ''=''"
    and "set text \<subseteq> set base32_alphabet"
    and "base32_decode text = Inr bytes"
proof -
  show enc: "base32_encode bytes = text @ replicate ((8 - length text mod 8) mod 8) CHR ''=''"
    by (simp add: base32_encode_def Let_def bits_def padded_def text_def)
  have lb: "length bits = 8 * length bytes"
    using length_concat_uniform [of "map (\<lambda>b. msb_bits 8 (unat b)) bytes" 8]
    by (simp add: bits_def)
  obtain m where m: "8 * length bytes + (5 - (8 * length bytes) mod 5) mod 5 = 5 * m"
    and m8: "m mod 8 \<noteq> 1" "m mod 8 \<noteq> 3" "m mod 8 \<noteq> 6"
    using padded_length [of "length bytes"] by blast
  have lp: "length padded = 5 * m"
    using m by (simp add: padded_def lb)
  then have d5: "5 dvd length padded" by simp
  have q5: "length q = 5" if "q \<in> set (groups 5 padded)" for q
    using groups_lengths [of 5 padded q] d5 that by simp
  have lq: "length (groups 5 padded) = m"
    using length_groups [of 5 padded] d5 lp by simp
  have v32: "bits_value q < 32" if "q \<in> set (groups 5 padded)" for q
    using bits_value_less [of q] q5 [OF that] by simp
  show sub: "set text \<subseteq> set base32_alphabet"
  proof
    fix c assume "c \<in> set text"
    then obtain q where q: "q \<in> set (groups 5 padded)" and c: "c = base32_alphabet ! bits_value q"
      by (auto simp: text_def)
    have "bits_value q < length base32_alphabet"
      using v32 [OF q] by (simp add: alphabet_facts)
    then show "c \<in> set base32_alphabet"
      unfolding c by (rule nth_mem)
  qed
  have noeq: "filter (\<lambda>c. c \<noteq> CHR ''='') text = text"
    using sub alphabet_facts(3) by (auto simp: filter_id_conv)
  have known: "\<not> list_ex (\<lambda>c. char_index c = None) text"
    using sub by (auto simp: list_ex_iff char_index_None)
  have lt: "length text = m"
    by (simp add: text_def lq)
  have valid: "length text mod 8 \<notin> {1, 3, 6}"
    using m8 by (simp add: lt)
  have "map (\<lambda>c. case char_index c of None \<Rightarrow> [] | Some v \<Rightarrow> msb_bits 5 v) text =
        groups 5 padded"
    unfolding text_def map_map
  proof (rule map_idI)
    fix q assume q: "q \<in> set (groups 5 padded)"
    have "char_index (base32_alphabet ! bits_value q) = Some (bits_value q)"
      using v32 [OF q] by (rule char_index_nth)
    then show "((\<lambda>c. case char_index c of None \<Rightarrow> [] | Some v \<Rightarrow> msb_bits 5 v) \<circ>
                (\<lambda>q. base32_alphabet ! bits_value q)) q = q"
      using q5 [OF q] by (simp add: msb_bits_bits_value)
  qed
  then have cat: "concat (map (\<lambda>c. case char_index c of None \<Rightarrow> [] | Some v \<Rightarrow> msb_bits 5 v)
                     text) = padded"
    by (simp add: concat_groups)
  have "(5 - length bits mod 5) mod 5 < 8"
    by (rule less_trans [of _ 5]) simp_all
  then have "length padded div 8 = length bytes"
    by (simp add: padded_def lb)
  then have tk: "take (8 * (length padded div 8)) padded = bits"
    by (simp add: padded_def lb)
  have gr: "groups 8 bits = map (\<lambda>b. msb_bits 8 (unat b)) bytes"
    unfolding bits_def by (rule groups_concat) simp_all
  have val: "(of_nat (bits_value (msb_bits 8 (unat b))) :: byte) = b" for b :: byte
  proof -
    have "unat b < 2 ^ 8" using unsigned_less [of b, where ?'a = nat] by simp
    then have "take_bit 8 (unat b) = unat b" by (simp add: take_bit_nat_eq_self_iff)
    then show ?thesis by (simp add: bits_value_msb_bits)
  qed
  show "base32_decode text = Inr bytes"
    using known valid
    by (simp add: base32_decode_def Let_def noeq cat tk gr val comp_def map_idI)
qed

lemma base32_decode_ignores_padding:
  "base32_decode (filter (\<lambda>c. c \<noteq> CHR ''='') text) = base32_decode text"
  by (simp add: base32_decode_def)

lemma stored_secret_eq:
  "stored_secret bytes =
   map (\<lambda>q. base32_alphabet ! bits_value q)
     (groups 5 (concat (map (\<lambda>b. msb_bits 8 (unat b)) bytes) @
        replicate ((5 - length (concat (map (\<lambda>b. msb_bits 8 (unat b)) bytes)) mod 5) mod 5)
          False))"
proof -
  let ?text = "map (\<lambda>q. base32_alphabet ! bits_value q)
     (groups 5 (concat (map (\<lambda>b. msb_bits 8 (unat b)) bytes) @
        replicate ((5 - length (concat (map (\<lambda>b. msb_bits 8 (unat b)) bytes)) mod 5) mod 5)
          False))"
  have "set ?text \<subseteq> set base32_alphabet"
    by (rule encode_decode_core(2))
  then have "filter (\<lambda>c. c \<noteq> CHR ''='') ?text = ?text"
    using alphabet_facts(3) by (auto simp: filter_id_conv)
  then show ?thesis
    unfolding stored_secret_def encode_decode_core(1) by simp
qed

subsection \<open>Claim about the codec\<close>

text \<open>
  Claim C9 (decoding the encoded text of a byte sequence, padding removed, yields the
  byte sequence again; decoding fails with a DecodeError on a character outside the
  alphabet). \<open>encode\<close> is a function of the bytes alone, defined on every byte
  sequence. The round trip holds for the stored form without padding and for the padded
  text.
\<close>

theorem base32_round_trip:
  "base32_decode (stored_secret bytes) = Inr bytes \<and>
   base32_decode (base32_encode bytes) = Inr bytes \<and>
   ((\<exists>c \<in> set text. c \<noteq> CHR ''='' \<and> c \<notin> set base32_alphabet) \<longrightarrow>
      base32_decode text = Inl DecodeError)"
proof (intro conjI impI)
  show stored: "base32_decode (stored_secret bytes) = Inr bytes"
    unfolding stored_secret_eq by (rule encode_decode_core(3))
  have "base32_decode (base32_encode bytes) = base32_decode (stored_secret bytes)"
    unfolding stored_secret_def by (rule base32_decode_ignores_padding [symmetric])
  then show "base32_decode (base32_encode bytes) = Inr bytes"
    using stored by simp
next
  assume "\<exists>c \<in> set text. c \<noteq> CHR ''='' \<and> c \<notin> set base32_alphabet"
  then have "list_ex (\<lambda>c. char_index c = None) (filter (\<lambda>c. c \<noteq> CHR ''='') text)"
    by (auto simp: list_ex_iff char_index_None)
  then show "base32_decode text = Inl DecodeError"
    by (simp add: base32_decode_def)
qed

theorem base32_round_trip_witness:
  "base32_decode (stored_secret [0x66, 0x6F, 0x6F]) = Inr [0x66, 0x6F, 0x6F] \<and>
   base32_decode (base32_encode [0x66, 0x6F, 0x6F]) = Inr [0x66, 0x6F, 0x6F] \<and>
   base32_decode ''MZXW1'' = Inl DecodeError"
  using base32_round_trip [of "[0x66, 0x6F, 0x6F]" "''MZXW1''"]
  by (simp add: base32_alphabet_def)

text \<open>The RFC 4648 test vector "foo", and the end-to-end use of the stored secret.\<close>

lemma stored_secret_example:
  "base32_encode [0x66, 0x6F, 0x6F] = ''MZXW6==='' \<and> stored_secret [0x66, 0x6F, 0x6F] = ''MZXW6''"
  by code_simp

lemma generateTOTP_of_stored_secret:
  assumes "\<And>key msg. length (hmac key msg) = 20"
    and "0 \<le> nowMs" "nowMs div 1000 div 30 < 2 ^ 32"
  shows "generateTOTP base32_decode hmac nowMs (stored_secret rawSecret) =
         Inr (generate_spec hmac rawSecret (nowMs div 1000))"
proof -
  have "base32_decode (stored_secret rawSecret) = Inr rawSecret"
    unfolding stored_secret_eq by (rule encode_decode_core(3))
  then show ?thesis
    using assms by (intro generateTOTP_refines) simp_all
qed

end
